theory Spec2Isabelle
  imports
    Main
    "HOL-Library.Multiset"
    "HOL-Library.Char_ord"
    "HOL-Library.List_Lexorder"
begin

section \<open>slack\_emoji\_uploader: the reconciliation and dispatch of \<open>main\<close>\<close>

text \<open>
  The development embeds the part of \<^verbatim>\<open>slack_emoji_uploader/__init__.py\<close> that
  follows the snapshot (\<^verbatim>\<open>existing_images = get_current_state(configurations)\<close>):
  the removal phase, the update of the working view, the expansion of the
  configured range and the bounded upload loop of \<^verbatim>\<open>main\<close>, together with the
  functions \<^verbatim>\<open>remove\<close> and \<^verbatim>\<open>reliably_upload\<close>.

  Everything outside the process is an input: the settings section is a map from
  keys to values, the snapshot is the list \<^verbatim>\<open>get_current_state\<close> returned, and the
  behaviour of the network, of the \<^verbatim>\<open>reliable_executor\<close> library and of the thread
  pool is given by an environment of oracles.
\<close>

subsection \<open>Python built-ins used by the code\<close>

text \<open>\<^verbatim>\<open>str.split('|')\<close>: the fields between the separators; never an empty list.\<close>

fun split_pipe :: "string \<Rightarrow> string list" where
  "split_pipe [] = [[]]"
| "split_pipe (c # cs) =
     (if c = CHR ''|'' then [] # split_pipe cs
      else (c # hd (split_pipe cs)) # tl (split_pipe cs))"

text \<open>\<^verbatim>\<open>sep.join(xs)\<close>.\<close>

fun join :: "string \<Rightarrow> string list \<Rightarrow> string" where
  "join sep [] = []"
| "join sep [x] = x"
| "join sep (x # y # zs) = x @ sep @ join sep (y # zs)"

text \<open>\<^verbatim>\<open>str(n)\<close> for an integer, as \<^verbatim>\<open>'{}'.format(n)\<close> prints it.\<close>

definition digit_char :: "nat \<Rightarrow> char" where
  "digit_char d = ''0123456789'' ! d"

function str_nat :: "nat \<Rightarrow> string" where
  "str_nat n = (if n < 10 then [digit_char n] else str_nat (n div 10) @ [digit_char (n mod 10)])"
  by pat_completeness auto
termination
  by (relation "measure (\<lambda>n. n)") auto

declare str_nat.simps [simp del]

definition str_int :: "int \<Rightarrow> string" where
  "str_int i = (if i < 0 then CHR ''-'' # str_nat (nat (- i)) else str_nat (nat i))"

text \<open>
  \<^verbatim>\<open>dict(pairs)\<close> as an association list in insertion order: a key that is
  already present keeps its place and takes the new value, a new key goes last.
  \<^verbatim>\<open>.items()\<close> is then the list itself.
\<close>

fun dict_setitem :: "('k \<times> 'v) list \<Rightarrow> 'k \<Rightarrow> 'v \<Rightarrow> ('k \<times> 'v) list" where
  "dict_setitem [] k v = [(k, v)]"
| "dict_setitem (p # ps) k v =
     (if fst p = k then (k, v) # ps else p # dict_setitem ps k v)"

definition dict_of :: "('k \<times> 'v) list \<Rightarrow> ('k \<times> 'v) list" where
  "dict_of ps = foldl (\<lambda>d (k, v). dict_setitem d k v) [] ps"

text \<open>\<^verbatim>\<open>range(start, finish + 1)\<close>.\<close>

definition range_incl :: "int \<Rightarrow> int \<Rightarrow> int list" where
  "range_incl s f = [s..f]"

subsection \<open>Data\<close>

text \<open>
  \<^verbatim>\<open>Image = namedtuple('Image', ('id', 'filename', 'remove_form'))\<close>. The field
  \<^verbatim>\<open>id\<close> is called \<open>ident\<close> here, since \<open>id\<close> is the identity function of HOL.
  The form is an opaque value of type \<open>'f\<close>; \<^verbatim>\<open>None\<close> is \<open>None\<close>.
\<close>

record 'f Image =
  ident :: string
  filename :: "string option"
  remove_form :: "'f option"

text \<open>The command line arguments that the code after the snapshot reads.\<close>

record Args =
  arg_start :: int
  arg_finish :: int
  arg_upload :: bool
  arg_remove :: bool
  arg_dry_run :: bool
  arg_threads :: int

text \<open>The profile section of the configuration: \<^verbatim>\<open>key in settings.keys()\<close> is
  \<open>settings key \<noteq> None\<close>, \<^verbatim>\<open>settings[key]\<close> and \<^verbatim>\<open>settings.get(key)\<close> read it.\<close>

type_synonym Settings = "string \<rightharpoonup> string"

definition id_key :: "int \<Rightarrow> string" where
  "id_key k = str_int k @ ''.id''"

definition filename_key :: "int \<Rightarrow> string" where
  "filename_key k = str_int k @ ''.filename''"

text \<open>The exceptions that leave \<^verbatim>\<open>main\<close>.\<close>

datatype 'f error =
    ValueError_not_in_list "'f Image"   \<comment> \<open>\<^verbatim>\<open>list.remove(x): x not in list\<close>\<close>
  | ValueError_max_workers              \<comment> \<open>\<^verbatim>\<open>ThreadPoolExecutor(n)\<close> with \<open>n \<le> 0\<close>\<close>
  | RequestException                    \<comment> \<open>raised by \<^verbatim>\<open>requests.post\<close>\<close>

text \<open>The log records of the code, by level and message, with their arguments.\<close>

datatype level = Debug | Info | Warning | Error

datatype message =
    Attempting_to_upload      \<comment> \<open>\<^verbatim>\<open>'Attempting to upload "%s"'\<close>\<close>
  | Uploaded_successfully     \<comment> \<open>\<^verbatim>\<open>'Uploaded "%s" as "%s" successfully'\<close>\<close>
  | Uploading_failed          \<comment> \<open>\<^verbatim>\<open>'Uploading "%s" failed because of "%s"'\<close>\<close>
  | Removing                  \<comment> \<open>\<^verbatim>\<open>'Removing: "%s"'\<close>\<close>
  | Would_remove              \<comment> \<open>\<^verbatim>\<open>'Would remove "%s"'\<close>\<close>
  | Would_upload              \<comment> \<open>\<^verbatim>\<open>'Would upload "%s"'\<close>\<close>
  | ID_not_found              \<comment> \<open>\<^verbatim>\<open>'ID "%s.id" was not found in settings'\<close>\<close>

text \<open>
  What the main thread does that can be observed: a log record, the POST of one
  image's removal form, the submission of one upload task to the executor (with
  the number of the future it returns), and the two kinds of wait.
\<close>

datatype 'f event =
    Log level message "string list"
  | Post "'f Image"
  | Submit nat "'f Image"
  | Wait_first_completed "nat list" "nat list"   \<comment> \<open>the set waited on, and \<^verbatim>\<open>not_done\<close>\<close>
  | Wait_all "nat list"

subsection \<open>The environment\<close>

text \<open>
  \<^verbatim>\<open>requests.post\<close> returns a response whatever its HTTP status is (the code never
  calls \<^verbatim>\<open>raise_for_status\<close>), or raises.
\<close>

datatype post_result = Response nat | Raises

text \<open>
  \<^verbatim>\<open>reliable_executor.reliably_execute(upload, image, settings, log=log)\<close>, a library
  outside the repository: it returns what \<^verbatim>\<open>upload\<close> returned, or raises
  \<^verbatim>\<open>RuntimeError\<close> with a reason, or lets another exception through.
\<close>

datatype exec_result = Returned string | Raised_RuntimeError string | Raised_other string

text \<open>
  The oracles: \<open>post n\<close> is the result of the \<open>n\<close>-th POST of \<^verbatim>\<open>remove\<close>;
  \<open>execute n\<close> is the result of \<^verbatim>\<open>reliably_execute\<close> in the task of future \<open>n\<close>;
  \<open>completed n\<close> tells which futures have finished when the \<open>n\<close>-th
  \<^verbatim>\<open>wait(uploading, return_when=FIRST_COMPLETED)\<close> returns: the future at position
  \<open>fst\<close> (modulo the size of the set) and every future listed in \<open>snd\<close>. Every value
  of the oracle is a legal answer of \<^verbatim>\<open>wait\<close>: at least one future of a non-empty
  set is done, none is invented.
\<close>

record Env =
  post :: "nat \<Rightarrow> post_result"
  execute :: "nat \<Rightarrow> exec_result"
  completed :: "nat \<Rightarrow> nat \<times> nat list"

subsection \<open>The removal phase\<close>

text \<open>
  Lines 344 to 350: the generator runs over the snapshot and, for each image, over
  the whole range; an image is yielded once for every position whose identifier
  list names it.
\<close>

definition images_to_remove :: "Settings \<Rightarrow> int \<Rightarrow> int \<Rightarrow> 'f Image list \<Rightarrow> 'f Image list" where
  "images_to_remove settings s f existing_images =
     [img. img \<leftarrow> existing_images, k \<leftarrow> range_incl s f,
        (case settings (id_key k) of
           None \<Rightarrow> False
         | Some v \<Rightarrow> ident img \<in> set (split_pipe v))]"

text \<open>\<^verbatim>\<open>', '.join(sorted(image.id for image in images))\<close>, the argument of two log records.\<close>

definition sorted_ids :: "'f Image list \<Rightarrow> string" where
  "sorted_ids images = join '', '' (sort (map ident images))"

text \<open>
  \<^verbatim>\<open>remove\<close>, called \<open>remove_images\<close> here (\<open>remove\<close> is a function on sets in
  HOL): one log record, then one POST per image, in order. There is no
  \<^verbatim>\<open>try\<close> in the function: a POST that raises ends the loop and the exception
  leaves \<^verbatim>\<open>remove\<close>. The \<open>n\<close>-th POST asks the oracle at \<open>n\<close>.
\<close>

fun post_each :: "(nat \<Rightarrow> post_result) \<Rightarrow> nat \<Rightarrow> 'f Image list \<Rightarrow> ('f error + unit) \<times> 'f event list" where
  "post_each p n [] = (Inr (), [])"
| "post_each p n (img # images) =
     (case p n of
        Raises \<Rightarrow> (Inl RequestException, [Post img])
      | Response status \<Rightarrow>
          (case post_each p (Suc n) images of (r, es) \<Rightarrow> (r, Post img # es)))"

definition remove_images :: "Env \<Rightarrow> 'f Image list \<Rightarrow> ('f error + unit) \<times> 'f event list" where
  "remove_images env images =
     (case post_each (post env) 0 images of
        (r, es) \<Rightarrow> (r, Log Info Removing [sorted_ids images] # es))"

text \<open>
  \<^verbatim>\<open>existing_images.remove(image_to_remove)\<close>: the first equal element goes, and
  \<^verbatim>\<open>ValueError\<close> is raised when there is none. Lines 360 and 361 do it for every
  entry of the tuple.
\<close>

definition list_remove :: "'f Image list \<Rightarrow> 'f Image \<Rightarrow> 'f error + 'f Image list" where
  "list_remove xs x =
     (if x \<in> set xs then Inr (remove1 x xs) else Inl (ValueError_not_in_list x))"

fun remove_each :: "'f Image list \<Rightarrow> 'f Image list \<Rightarrow> 'f error + 'f Image list" where
  "remove_each existing_images [] = Inr existing_images"
| "remove_each existing_images (x # xs) =
     (case list_remove existing_images x of
        Inl e \<Rightarrow> Inl e
      | Inr existing_images' \<Rightarrow> remove_each existing_images' xs)"

text \<open>
  Lines 343 to 361. The result is the working view after the phase, or the
  exception that ended the run, with the events of the phase.
\<close>

definition removal_phase ::
  "Env \<Rightarrow> Args \<Rightarrow> Settings \<Rightarrow> 'f Image list \<Rightarrow> ('f error + 'f Image list) \<times> 'f event list" where
  "removal_phase env args settings existing_images =
     (if arg_remove args then
        (let images = images_to_remove settings (arg_start args) (arg_finish args) existing_images;
             called = (if arg_dry_run args
                       then (Inr (), [Log Info Would_remove [sorted_ids images]])
                       else remove_images env images)
         in case fst called of
              Inl e \<Rightarrow> (Inl e, snd called)
            | Inr u \<Rightarrow> (remove_each existing_images images, snd called))
      else (Inr existing_images, []))"

subsection \<open>The upload phase\<close>

text \<open>\<^verbatim>\<open>x or ''\<close> for the value of \<^verbatim>\<open>settings.get(key)\<close>: \<^verbatim>\<open>None\<close> and \<^verbatim>\<open>''\<close> both give \<^verbatim>\<open>''\<close>.\<close>

definition or_empty :: "string option \<Rightarrow> string" where
  "or_empty v = (case v of None \<Rightarrow> [] | Some s \<Rightarrow> s)"

text \<open>
  Lines 368 to 374: the images of one position, from the value of its
  \<^verbatim>\<open><k>.id\<close> key and what \<^verbatim>\<open>settings.get('<k>.filename')\<close> returned.
\<close>

definition expand_images :: "string \<Rightarrow> string option \<Rightarrow> 'f Image list" where
  "expand_images ids filenames =
     map (\<lambda>(identifier, fname). \<lparr>ident = identifier, filename = Some fname, remove_form = None\<rparr>)
       (dict_of (zip (split_pipe ids) (split_pipe (or_empty filenames))))"

text \<open>
  \<^verbatim>\<open>reliably_upload\<close>, run by a worker thread: its log records and the exception that
  leaves it, if any. Only \<^verbatim>\<open>RuntimeError\<close> is caught.
\<close>

definition str_opt :: "string option \<Rightarrow> string" where
  "str_opt v = (case v of None \<Rightarrow> ''None'' | Some s \<Rightarrow> s)"

definition reliably_upload :: "'f Image \<Rightarrow> exec_result \<Rightarrow> (string + unit) \<times> 'f event list" where
  "reliably_upload img r =
     (case r of
        Returned v \<Rightarrow>
          (Inr (), [Log Debug Attempting_to_upload [ident img],
                    Log Info Uploaded_successfully [str_opt (filename img), v]])
      | Raised_RuntimeError reason \<Rightarrow>
          (Inr (), [Log Debug Attempting_to_upload [ident img],
                    Log Error Uploading_failed [ident img, reason]])
      | Raised_other e \<Rightarrow>
          (Inl e, [Log Debug Attempting_to_upload [ident img]]))"

text \<open>
  The state of the upload loop: the set \<^verbatim>\<open>uploading\<close> (futures by number, in the
  order they were added), the futures created so far, each with its image and with
  what its task does, the number of waits so far, and the events of the main thread.
  A future keeps the exception of its task; \<^verbatim>\<open>main\<close> never asks a future for its
  result.
\<close>

record 'f upload_state =
  uploading :: "nat list"
  futures :: "('f Image \<times> (string + unit) \<times> 'f event list) list"
  n_waits :: nat
  events :: "'f event list"

text \<open>\<^verbatim>\<open>concurrent.futures.wait(fs, return_when=FIRST_COMPLETED).not_done\<close>.\<close>

definition wait_first_completed :: "nat \<times> nat list \<Rightarrow> nat list \<Rightarrow> nat list" where
  "wait_first_completed choice fs =
     (if fs = [] then []
      else filter (\<lambda>f. f \<noteq> fs ! (fst choice mod length fs) \<and> f \<notin> set (snd choice)) fs)"

text \<open>Lines 376 to 391: the body of the inner loop, for one image.\<close>

definition upload_image ::
  "Env \<Rightarrow> Args \<Rightarrow> 'f Image list \<Rightarrow> 'f upload_state \<Rightarrow> 'f Image \<Rightarrow> 'f upload_state" where
  "upload_image env args existing_images st img =
     (if ident img \<in> set (map ident existing_images) then st
      else
        (let st1 =
               (if arg_threads args \<le> int (length (uploading st)) then
                  (let not_done = wait_first_completed (completed env (n_waits st)) (uploading st)
                   in st\<lparr>uploading := not_done,
                         n_waits := Suc (n_waits st),
                         events := events st @ [Wait_first_completed (uploading st) not_done]\<rparr>)
                else st)
         in if arg_dry_run args then
              st1\<lparr>events := events st1 @ [Log Info Would_upload [ident img]]\<rparr>
            else
              (let n = length (futures st1)
               in st1\<lparr>uploading := uploading st1 @ [n],
                      futures := futures st1 @ [(img, reliably_upload img (execute env n))],
                      events := events st1 @ [Submit n img]\<rparr>)))"

text \<open>Lines 367 to 396: the body of the outer loop, for one position.\<close>

definition upload_position ::
  "Env \<Rightarrow> Args \<Rightarrow> Settings \<Rightarrow> 'f Image list \<Rightarrow> 'f upload_state \<Rightarrow> int \<Rightarrow> 'f upload_state" where
  "upload_position env args settings existing_images st k =
     (case settings (id_key k) of
        None \<Rightarrow> st\<lparr>events := events st @ [Log Warning ID_not_found [str_int k]]\<rparr>
      | Some v \<Rightarrow>
          foldl (upload_image env args existing_images) st
            (expand_images v (settings (filename_key k))))"

text \<open>
  Lines 363 to 397. \<^verbatim>\<open>ThreadPoolExecutor(args.threads)\<close> raises \<^verbatim>\<open>ValueError\<close> when
  the number is not positive; the last statement of the block waits for every
  future still in \<^verbatim>\<open>uploading\<close>. The phase starts from the events of the removal
  phase.
\<close>

definition upload_phase ::
  "Env \<Rightarrow> Args \<Rightarrow> Settings \<Rightarrow> 'f Image list \<Rightarrow> 'f event list \<Rightarrow> ('f error + unit) \<times> 'f upload_state" where
  "upload_phase env args settings existing_images es =
     (let st0 = \<lparr>uploading = [], futures = [], n_waits = 0, events = es\<rparr>
      in if arg_upload args then
           (if arg_threads args \<le> 0 then (Inl ValueError_max_workers, st0)
            else
              (let st = foldl (upload_position env args settings existing_images) st0
                          (range_incl (arg_start args) (arg_finish args))
               in (Inr (), st\<lparr>events := events st @ [Wait_all (uploading st)]\<rparr>)))
         else (Inr (), st0))"

subsection \<open>\<^verbatim>\<open>main\<close>, from the snapshot on\<close>

record 'f outcome =
  result :: "'f error + unit"          \<comment> \<open>the exception that leaves \<^verbatim>\<open>main\<close>, if any\<close>
  view :: "'f Image list"              \<comment> \<open>\<^verbatim>\<open>existing_images\<close> as the addition phase sees it\<close>
  trace :: "'f event list"             \<comment> \<open>the events of the main thread, in order\<close>
  tasks :: "('f Image \<times> (string + unit) \<times> 'f event list) list"   \<comment> \<open>the futures created\<close>

text \<open>
  When the removal phase raises, the run ends there and the field \<open>view\<close> repeats
  the snapshot: no later statement reads the list.
\<close>

definition main :: "Env \<Rightarrow> Args \<Rightarrow> Settings \<Rightarrow> 'f Image list \<Rightarrow> 'f outcome" where
  "main env args settings existing_images =
     (case removal_phase env args settings existing_images of
        (Inl e, es) \<Rightarrow> \<lparr>result = Inl e, view = existing_images, trace = es, tasks = []\<rparr>
      | (Inr existing_images', es) \<Rightarrow>
          (case upload_phase env args settings existing_images' es of
             (r, st) \<Rightarrow>
               \<lparr>result = r, view = existing_images', trace = events st, tasks = futures st\<rparr>))"

text \<open>Readings of a trace.\<close>

definition posted :: "'f event list \<Rightarrow> 'f Image list" where
  "posted es = concat (map (\<lambda>e. case e of Post img \<Rightarrow> [img] | _ \<Rightarrow> []) es)"

definition submitted :: "'f event list \<Rightarrow> 'f Image list" where
  "submitted es = concat (map (\<lambda>e. case e of Submit n img \<Rightarrow> [img] | _ \<Rightarrow> []) es)"

definition would_upload :: "'f event list \<Rightarrow> string list" where
  "would_upload es =
     concat (map (\<lambda>e. case e of Log Info Would_upload args \<Rightarrow> args | _ \<Rightarrow> []) es)"

text \<open>The set \<^verbatim>\<open>uploading\<close> after the events of a trace, replayed from the trace alone.\<close>

fun in_flight_step :: "nat list \<Rightarrow> 'f event \<Rightarrow> nat list" where
  "in_flight_step fs (Submit n img) = fs @ [n]"
| "in_flight_step fs (Wait_first_completed waited not_done) = not_done"
| "in_flight_step fs e = fs"

definition in_flight :: "'f event list \<Rightarrow> nat list" where
  "in_flight es = foldl in_flight_step [] es"

text \<open>
  The images of one position that pass the test of line 376 against a working view,
  and those of the whole range, in the order the loops visit them: the images for
  which the loop body goes on to line 378.
\<close>

definition planned_at :: "Settings \<Rightarrow> 'f Image list \<Rightarrow> int \<Rightarrow> 'f Image list" where
  "planned_at settings existing_images k =
     (case settings (id_key k) of
        None \<Rightarrow> []
      | Some v \<Rightarrow>
          filter (\<lambda>img. ident img \<notin> set (map ident existing_images))
            (expand_images v (settings (filename_key k))))"

definition planned_uploads :: "Settings \<Rightarrow> int \<Rightarrow> int \<Rightarrow> 'f Image list \<Rightarrow> 'f Image list" where
  "planned_uploads settings s f existing_images =
     concat (map (planned_at settings existing_images) (range_incl s f))"

subsection \<open>Vocabulary of the proofs\<close>

text \<open>An event of the removal phase: one of its two log records, or a POST.\<close>

fun removal_event :: "'f event \<Rightarrow> bool" where
  "removal_event (Log l m a) = (m = Removing \<or> m = Would_remove)"
| "removal_event (Post img) = True"
| "removal_event e = False"

text \<open>The test of lines 348 and 349: position \<open>k\<close> has an identifier list and it names the image.\<close>

definition listed :: "Settings \<Rightarrow> 'f Image \<Rightarrow> int \<Rightarrow> bool" where
  "listed settings img k =
     (case settings (id_key k) of
        None \<Rightarrow> False
      | Some v \<Rightarrow> ident img \<in> set (split_pipe v))"

text \<open>
  Concrete inputs for the examples: two images of a snapshot, an environment where
  every POST is answered, every upload returns and the first future of the set is
  the one that has finished, and one whose first POST raises.
\<close>

definition image_a :: "nat Image" where
  "image_a = \<lparr>ident = ''a'', filename = None, remove_form = Some 0\<rparr>"

definition image_b :: "nat Image" where
  "image_b = \<lparr>ident = ''b'', filename = None, remove_form = Some 1\<rparr>"

definition quiet_env :: Env where
  "quiet_env =
     \<lparr>post = (\<lambda>n. Response 200),
      execute = (\<lambda>n. Returned ''ok''), completed = (\<lambda>n. (0, []))\<rparr>"

definition first_post_fails_env :: Env where
  "first_post_fails_env =
     \<lparr>post = (\<lambda>n. if n = 0 then Raises else Response 200),
      execute = (\<lambda>n. Returned ''ok''), completed = (\<lambda>n. (0, []))\<rparr>"

text \<open>
  The identifiers dispatched for upload by a trace: those of the submitted images
  and, in a dry run, those reported by \<^verbatim>\<open>'Would upload "%s"'\<close>.
\<close>

definition dispatched_ids :: "'f event list \<Rightarrow> string list" where
  "dispatched_ids es = map ident (submitted es) @ would_upload es"

text \<open>
  The invariant of the upload loop for a limit \<open>T\<close>: the set replayed from the events
  is the variable \<^verbatim>\<open>uploading\<close>, and after every prefix of the events it holds at
  most \<open>T\<close> futures.
\<close>

definition in_flight_inv :: "nat \<Rightarrow> 'f upload_state \<Rightarrow> bool" where
  "in_flight_inv T st =
     (in_flight (events st) = uploading st
      \<and> (\<forall>n. length (in_flight (take n (events st))) \<le> T))"

text \<open>Two states of the loop that agree on everything the main thread reads.\<close>

definition same_main_thread :: "'f upload_state \<Rightarrow> 'f upload_state \<Rightarrow> bool" where
  "same_main_thread st st' =
     (uploading st = uploading st' \<and> n_waits st = n_waits st' \<and> events st = events st'
      \<and> length (futures st) = length (futures st'))"

text \<open>The futures that the submissions of a trace create, each with what its own task does.\<close>

definition futures_of_trace ::
  "Env \<Rightarrow> 'f event list \<Rightarrow> ('f Image \<times> (string + unit) \<times> 'f event list) list" where
  "futures_of_trace env es =
     map (\<lambda>(n, img). (img, reliably_upload img (execute env n))) (enumerate 0 (submitted es))"

text \<open>
  An environment where the first upload task gives up with \<^verbatim>\<open>RuntimeError\<close>, the
  second ends with another exception, and the others succeed.
\<close>

definition failing_uploads_env :: Env where
  "failing_uploads_env =
     \<lparr>post = (\<lambda>n. Response 200),
      execute = (\<lambda>n. if n = 0 then Raised_RuntimeError ''gave up''
                    else if n = 1 then Raised_other ''OSError'' else Returned ''c''),
      completed = (\<lambda>n. (0, []))\<rparr>"

text \<open>An environment whose server answers every POST with an error status.\<close>

definition rejecting_env :: Env where
  "rejecting_env =
     \<lparr>post = (\<lambda>n. Response 500),
      execute = (\<lambda>n. Returned ''ok''), completed = (\<lambda>n. (0, []))\<rparr>"

section \<open>Properties\<close>

subsection \<open>The built-ins\<close>

lemma split_pipe_nonempty: "split_pipe s \<noteq> []"
  by (induction s) auto

lemma split_pipe_hd_tl: "split_pipe s = hd (split_pipe s) # tl (split_pipe s)"
  using split_pipe_nonempty by simp

lemma take_min_length: "take (min (length xs) n) xs = take n xs"
  by (simp add: min_def)

lemma dict_setitem_fresh: "k \<notin> fst ` set d \<Longrightarrow> dict_setitem d k v = d @ [(k, v)]"
  by (induction d) auto

lemma dict_setitem_length: "length (dict_setitem d k v) \<le> Suc (length d)"
  by (induction d) auto

lemma dict_setitem_keys: "fst ` set (dict_setitem d k v) = insert k (fst ` set d)"
  by (induction d) auto

text \<open>The three facts about \<open>dict_of\<close> are proved for the loop from any dictionary.\<close>

lemma dict_fold_distinct:
  "distinct (map fst (d @ ps)) \<Longrightarrow> foldl (\<lambda>d (k, v). dict_setitem d k v) d ps = d @ ps"
proof (induction ps arbitrary: d)
  case Nil
  then show ?case by simp
next
  case (Cons p ps)
  obtain k v where p: "p = (k, v)" by (cases p)
  from Cons.prems p have fresh: "k \<notin> fst ` set d" by auto
  from Cons.prems p have "distinct (map fst ((d @ [(k, v)]) @ ps))" by simp
  from Cons.IH [OF this] show ?case
    using p fresh by (simp add: dict_setitem_fresh)
qed

lemma dict_of_distinct: "distinct (map fst ps) \<Longrightarrow> dict_of ps = ps"
  unfolding dict_of_def using dict_fold_distinct [of "[]" ps] by simp

lemma dict_fold_length:
  "length (foldl (\<lambda>d (k, v). dict_setitem d k v) d ps) \<le> length d + length ps"
proof (induction ps arbitrary: d)
  case Nil
  then show ?case by simp
next
  case (Cons p ps)
  obtain k v where p: "p = (k, v)" by (cases p)
  have "length (foldl (\<lambda>d (k, v). dict_setitem d k v) (dict_setitem d k v) ps)
          \<le> length (dict_setitem d k v) + length ps"
    by (rule Cons.IH)
  also have "\<dots> \<le> Suc (length d) + length ps"
    using dict_setitem_length [of d k v] by simp
  finally show ?case using p by simp
qed

lemma dict_of_length: "length (dict_of ps) \<le> length ps"
  unfolding dict_of_def using dict_fold_length [of "[]" ps] by simp

lemma dict_fold_keys:
  "fst ` set (foldl (\<lambda>d (k, v). dict_setitem d k v) d ps) = fst ` set d \<union> fst ` set ps"
proof (induction ps arbitrary: d)
  case Nil
  then show ?case by simp
next
  case (Cons p ps)
  obtain k v where p: "p = (k, v)" by (cases p)
  show ?case using Cons.IH [of "dict_setitem d k v"] p
    by (simp add: dict_setitem_keys)
qed

lemma dict_of_keys: "fst ` set (dict_of ps) = fst ` set ps"
  unfolding dict_of_def using dict_fold_keys [of "[]" ps] by simp

subsection \<open>Expansion of one position\<close>

lemma expand_images_def2:
  "expand_images ids filenames =
     map (\<lambda>p. \<lparr>ident = fst p, filename = Some (snd p), remove_form = None\<rparr>)
       (dict_of (zip (split_pipe ids) (split_pipe (or_empty filenames))))"
  unfolding expand_images_def by (simp add: case_prod_unfold)

lemma expand_images_idents:
  "ident ` set (expand_images ids filenames :: 'f Image list)
     = set (take (length (split_pipe (or_empty filenames))) (split_pipe ids))"
proof -
  have "ident ` set (expand_images ids filenames :: 'f Image list)
          = fst ` set (dict_of (zip (split_pipe ids) (split_pipe (or_empty filenames))))"
    unfolding expand_images_def2 by (simp add: image_image)
  also have "\<dots> = set (map fst (zip (split_pipe ids) (split_pipe (or_empty filenames))))"
    by (simp add: dict_of_keys)
  also have "\<dots> = set (take (length (split_pipe (or_empty filenames))) (split_pipe ids))"
    by (simp add: map_fst_zip_take take_min_length)
  finally show ?thesis .
qed

lemma expand_images_length:
  "length (expand_images idv fnv :: 'f Image list)
     \<le> min (length (split_pipe idv)) (length (split_pipe (or_empty fnv)))"
  unfolding expand_images_def
  using dict_of_length [of "zip (split_pipe idv) (split_pipe (or_empty fnv))"] by simp

text \<open>
  Claim C7, as the specification states it, fails where an identifier is repeated
  among those that get a filename: with \<^verbatim>\<open>3.id = "a|a|b"\<close> and
  \<^verbatim>\<open>3.filename = "x|y"\<close> the lists have three and two fields, the pairs
  \<open>(a, x)\<close> and \<open>(a, y)\<close> go through \<^verbatim>\<open>dict\<close>, and one item is produced, not two.
\<close>

theorem expand_images_repeated_identifier_counterexample:
  "length (split_pipe ''a|a|b'') \<noteq> length (split_pipe (or_empty (Some ''x|y'')))
   \<and> (expand_images ''a|a|b'' (Some ''x|y'') :: unit Image list)
       = [\<lparr>ident = ''a'', filename = Some ''y'', remove_form = None\<rparr>]
   \<and> length (expand_images ''a|a|b'' (Some ''x|y'') :: unit Image list)
       \<noteq> min (length (split_pipe ''a|a|b'')) (length (split_pipe (or_empty (Some ''x|y''))))"
  by code_simp

text \<open>
  Claim C7, amended: for every position whose identifiers, as far as the filename
  list reaches, are pairwise distinct, expansion pairs identifiers with filenames
  by position and produces exactly as many items as the shorter list has fields
  (so with \<^verbatim>\<open>2.id = "a|b"\<close> and \<^verbatim>\<open>2.filename = "x"\<close> the one item
  \<open>(a, x)\<close>, and \<open>b\<close> is dropped); whatever the identifiers are, it never
  produces more.
\<close>

theorem expand_images_pairs_by_position:
  assumes "distinct (take (length (split_pipe (or_empty fnv))) (split_pipe idv))"
  shows "(expand_images idv fnv :: 'f Image list)
           = map (\<lambda>(i, f). \<lparr>ident = i, filename = Some f, remove_form = None\<rparr>)
               (zip (split_pipe idv) (split_pipe (or_empty fnv)))
         \<and> length (expand_images idv fnv :: 'f Image list)
           = min (length (split_pipe idv)) (length (split_pipe (or_empty fnv)))
         \<and> (\<forall>idv' fnv'. length (expand_images idv' fnv' :: 'f Image list)
              \<le> min (length (split_pipe idv')) (length (split_pipe (or_empty fnv'))))"
proof -
  have "distinct (map fst (zip (split_pipe idv) (split_pipe (or_empty fnv))))"
    using assms by (simp add: map_fst_zip_take take_min_length)
  then have "dict_of (zip (split_pipe idv) (split_pipe (or_empty fnv)))
               = zip (split_pipe idv) (split_pipe (or_empty fnv))"
    by (rule dict_of_distinct)
  then show ?thesis
    using expand_images_length by (simp add: expand_images_def)
qed

theorem expand_images_pairs_by_position_witness:
  "distinct (take (length (split_pipe (or_empty (Some ''x'')))) (split_pipe ''a|b''))
   \<and> length (split_pipe ''a|b'') \<noteq> length (split_pipe (or_empty (Some ''x'')))
   \<and> (expand_images ''a|b'' (Some ''x'') :: unit Image list)
       = [\<lparr>ident = ''a'', filename = Some ''x'', remove_form = None\<rparr>]"
proof -
  have h: "distinct (take (length (split_pipe (or_empty (Some ''x'')))) (split_pipe ''a|b''))"
    by (simp add: or_empty_def)
  show ?thesis
    using h expand_images_pairs_by_position [where ?'f = unit, OF h]
    by (simp add: or_empty_def)
qed

text \<open>
  Claim C10: at a position whose \<^verbatim>\<open><k>.id\<close> key is present and whose
  \<^verbatim>\<open><k>.filename\<close> key is absent, the missing value is read as \<^verbatim>\<open>''\<close>, whose
  split is the one-element list of the empty string; the position is not skipped
  and nothing is raised: exactly one item is produced, the first identifier with
  the empty source reference, and the loop body runs for that item.
\<close>

theorem missing_filename_gives_one_item:
  fixes st :: "'f upload_state"
  assumes "settings (id_key k) = Some v" and "settings (filename_key k) = None"
  shows "expand_images v (settings (filename_key k))
           = [\<lparr>ident = hd (split_pipe v), filename = Some '''', remove_form = None :: 'f option\<rparr>]
         \<and> upload_position env args settings existing_images st k
           = upload_image env args existing_images st
               \<lparr>ident = hd (split_pipe v), filename = Some '''', remove_form = None\<rparr>"
proof -
  have z: "zip (split_pipe v) (split_pipe (or_empty None)) = [(hd (split_pipe v), '''')]"
    by (subst split_pipe_hd_tl) (simp add: or_empty_def)
  have e: "expand_images v None
           = [\<lparr>ident = hd (split_pipe v), filename = Some '''', remove_form = None :: 'f option\<rparr>]"
    unfolding expand_images_def2 z by (simp add: dict_of_def)
  show ?thesis using assms e by (simp add: upload_position_def)
qed

theorem missing_filename_gives_one_item_witness:
  "[''2.id'' \<mapsto> ''a|b''] (id_key 2) = Some ''a|b''
   \<and> [''2.id'' \<mapsto> ''a|b''] (filename_key 2) = None
   \<and> (expand_images ''a|b'' ([''2.id'' \<mapsto> ''a|b''] (filename_key 2)) :: unit Image list)
       = [\<lparr>ident = ''a'', filename = Some '''', remove_form = None\<rparr>]"
proof -
  have k: "id_key 2 = ''2.id''" and f: "filename_key 2 = ''2.filename''"
    by code_simp+
  have h1: "[''2.id'' \<mapsto> ''a|b''] (id_key 2) = Some ''a|b''"
    by (simp add: k)
  have h2: "[''2.id'' \<mapsto> ''a|b''] (filename_key 2) = None"
    by (simp add: f)
  show ?thesis
    using h1 h2 missing_filename_gives_one_item [where ?'f = unit, OF h1 h2]
    by simp
qed

subsection \<open>What a trace holds\<close>

lemma posted_simps [simp]:
  "posted [] = []"
  "posted (es @ es') = posted es @ posted es'"
  "posted (Post img # es) = img # posted es"
  "posted (Log l m a # es) = posted es"
  "posted (Submit n img # es) = posted es"
  "posted (Wait_first_completed fs nd # es) = posted es"
  "posted (Wait_all fs # es) = posted es"
  by (simp_all add: posted_def)

lemma submitted_simps [simp]:
  "submitted [] = []"
  "submitted (es @ es') = submitted es @ submitted es'"
  "submitted (Submit n img # es) = img # submitted es"
  "submitted (Log l m a # es) = submitted es"
  "submitted (Post img # es) = submitted es"
  "submitted (Wait_first_completed fs nd # es) = submitted es"
  "submitted (Wait_all fs # es) = submitted es"
  by (simp_all add: submitted_def)

lemma would_upload_simps [simp]:
  "would_upload [] = []"
  "would_upload (es @ es') = would_upload es @ would_upload es'"
  "would_upload (Log Info Would_upload a # es) = a @ would_upload es"
  "m \<noteq> Would_upload \<Longrightarrow> would_upload (Log l m a # es) = would_upload es"
  "l \<noteq> Info \<Longrightarrow> would_upload (Log l m a # es) = would_upload es"
  "would_upload (Submit n img # es) = would_upload es"
  "would_upload (Post img # es) = would_upload es"
  "would_upload (Wait_first_completed fs nd # es) = would_upload es"
  "would_upload (Wait_all fs # es) = would_upload es"
  by (simp_all add: would_upload_def split: level.splits message.splits)

lemma foldl_emits:
  assumes "\<And>s x. g (f s x) = g s @ h x"
  shows "g (foldl f s xs) = g s @ concat (map h xs)"
  by (induction xs arbitrary: s) (simp_all add: assms)

lemma foldl_keeps:
  assumes "\<And>s x. g (f s x) = g s"
  shows "g (foldl f s xs) = g s"
  by (induction xs arbitrary: s) (simp_all add: assms)

lemma foldl_invariant:
  assumes "P s" and "\<And>s x. P s \<Longrightarrow> P (f s x)"
  shows "P (foldl f s xs)"
  using assms(1) by (induction xs arbitrary: s) (simp_all add: assms(2))

lemma concat_map_if: "concat (map (\<lambda>x. if P x then [] else [x]) xs) = filter (\<lambda>x. \<not> P x) xs"
  by (induction xs) simp_all

lemma upload_image_submitted:
  "submitted (events (upload_image env args existing_images st img))
     = submitted (events st)
       @ (if ident img \<in> set (map ident existing_images) \<or> arg_dry_run args then [] else [img])"
  by (simp add: upload_image_def Let_def)

lemma upload_image_would_upload:
  "would_upload (events (upload_image env args existing_images st img))
     = would_upload (events st)
       @ (if ident img \<in> set (map ident existing_images) \<or> \<not> arg_dry_run args then [] else [ident img])"
  by (simp add: upload_image_def Let_def)

lemma upload_image_posted:
  "posted (events (upload_image env args existing_images st img)) = posted (events st)"
  by (simp add: upload_image_def Let_def)

lemma upload_position_submitted:
  "submitted (events (upload_position env args settings existing_images st k))
     = submitted (events st)
       @ (if arg_dry_run args then [] else planned_at settings existing_images k)"
proof (cases "settings (id_key k)")
  case None
  then show ?thesis by (simp add: upload_position_def planned_at_def)
next
  case (Some v)
  have "submitted (events (foldl (upload_image env args existing_images) st
          (expand_images v (settings (filename_key k)))))
        = submitted (events st) @ concat (map
            (\<lambda>img. if ident img \<in> set (map ident existing_images) \<or> arg_dry_run args then [] else [img])
            (expand_images v (settings (filename_key k))))"
    by (rule foldl_emits [where g = "\<lambda>s. submitted (events s)"]) (rule upload_image_submitted)
  then show ?thesis using Some
    by (cases "arg_dry_run args") (simp_all add: upload_position_def planned_at_def concat_map_if)
qed

lemma upload_position_would_upload:
  fixes st :: "'f upload_state"
  shows "would_upload (events (upload_position env args settings existing_images st k))
     = would_upload (events st)
       @ (if arg_dry_run args then map ident (planned_at settings existing_images k) else [])"
proof (cases "settings (id_key k)")
  case None
  then show ?thesis by (simp add: upload_position_def planned_at_def)
next
  case (Some v)
  let ?xs = "expand_images v (settings (filename_key k)) :: 'f Image list"
  have "would_upload (events (foldl (upload_image env args existing_images) st ?xs))
        = would_upload (events st) @ concat (map
            (\<lambda>img. if ident img \<in> set (map ident existing_images) \<or> \<not> arg_dry_run args then [] else [ident img])
            ?xs)"
    by (rule foldl_emits [where g = "\<lambda>s. would_upload (events s)"]) (rule upload_image_would_upload)
  moreover have "concat (map (\<lambda>img. if ident img \<in> set (map ident existing_images) then [] else [ident img]) xs)
      = map ident (filter (\<lambda>img. ident img \<notin> set (map ident existing_images)) xs)" for xs :: "'f Image list"
    by (induction xs) simp_all
  ultimately show ?thesis using Some
    by (cases "arg_dry_run args") (simp_all add: upload_position_def planned_at_def)
qed

lemma upload_position_posted:
  "posted (events (upload_position env args settings existing_images st k)) = posted (events st)"
proof (cases "settings (id_key k)")
  case None
  then show ?thesis by (simp add: upload_position_def)
next
  case (Some v)
  have "posted (events (foldl (upload_image env args existing_images) st
          (expand_images v (settings (filename_key k))))) = posted (events st)"
    by (rule foldl_keeps [where g = "\<lambda>s. posted (events s)"]) (rule upload_image_posted)
  then show ?thesis using Some by (simp add: upload_position_def)
qed

lemma upload_phase_result:
  "fst (upload_phase env args settings existing_images es)
     = (if arg_upload args \<and> arg_threads args \<le> 0 then Inl ValueError_max_workers else Inr ())"
  by (simp add: upload_phase_def Let_def)

lemma upload_phase_submitted:
  "submitted (events (snd (upload_phase env args settings existing_images es)))
     = submitted es
       @ (if arg_upload args \<and> 0 < arg_threads args \<and> \<not> arg_dry_run args
          then planned_uploads settings (arg_start args) (arg_finish args) existing_images else [])"
proof -
  let ?st0 = "\<lparr>uploading = [], futures = [], n_waits = 0, events = es\<rparr> :: 'a upload_state"
  have "submitted (events (foldl (upload_position env args settings existing_images) ?st0
          (range_incl (arg_start args) (arg_finish args))))
        = submitted (events ?st0) @ concat (map
            (\<lambda>k. if arg_dry_run args then [] else planned_at settings existing_images k)
            (range_incl (arg_start args) (arg_finish args)))"
    by (rule foldl_emits [where g = "\<lambda>s. submitted (events s)"]) (rule upload_position_submitted)
  then show ?thesis
    by (cases "arg_dry_run args") (simp_all add: upload_phase_def Let_def planned_uploads_def)
qed

lemma upload_phase_would_upload:
  "would_upload (events (snd (upload_phase env args settings existing_images es)))
     = would_upload es
       @ (if arg_upload args \<and> 0 < arg_threads args \<and> arg_dry_run args
          then map ident (planned_uploads settings (arg_start args) (arg_finish args) existing_images)
          else [])"
proof -
  let ?st0 = "\<lparr>uploading = [], futures = [], n_waits = 0, events = es\<rparr> :: 'a upload_state"
  have "would_upload (events (foldl (upload_position env args settings existing_images) ?st0
          (range_incl (arg_start args) (arg_finish args))))
        = would_upload (events ?st0) @ concat (map
            (\<lambda>k. if arg_dry_run args then map ident (planned_at settings existing_images k) else [])
            (range_incl (arg_start args) (arg_finish args)))"
    by (rule foldl_emits [where g = "\<lambda>s. would_upload (events s)"]) (rule upload_position_would_upload)
  then show ?thesis
    by (cases "arg_dry_run args")
       (simp_all add: upload_phase_def Let_def planned_uploads_def map_concat comp_def)
qed

lemma upload_phase_posted:
  "posted (events (snd (upload_phase env args settings existing_images es))) = posted es"
proof -
  let ?st0 = "\<lparr>uploading = [], futures = [], n_waits = 0, events = es\<rparr> :: 'a upload_state"
  have "posted (events (foldl (upload_position env args settings existing_images) ?st0
          (range_incl (arg_start args) (arg_finish args)))) = posted (events ?st0)"
    by (rule foldl_keeps [where g = "\<lambda>s. posted (events s)"]) (rule upload_position_posted)
  then show ?thesis by (simp add: upload_phase_def Let_def)
qed

subsection \<open>The removal phase\<close>

lemma post_each_ok:
  "(\<forall>j < length images. p (n + j) \<noteq> Raises) \<Longrightarrow> post_each p n images = (Inr (), map Post images)"
proof (induction images arbitrary: n)
  case Nil
  then show ?case by simp
next
  case (Cons img images)
  from Cons.prems have here: "p n \<noteq> Raises" by force
  have "\<forall>j < length images. p (Suc n + j) \<noteq> Raises"
  proof (intro allI impI)
    fix j assume "j < length images"
    then have "Suc j < length (img # images)" by simp
    with Cons.prems have "p (n + Suc j) \<noteq> Raises" by blast
    then show "p (Suc n + j) \<noteq> Raises" by simp
  qed
  from Cons.IH [OF this] here show ?case
    by (cases "p n") simp_all
qed

lemma post_each_raises:
  "i < length images \<Longrightarrow> p (n + i) = Raises \<Longrightarrow> (\<forall>j < i. p (n + j) \<noteq> Raises) \<Longrightarrow>
   post_each p n images = (Inl RequestException, map Post (take (Suc i) images))"
proof (induction images arbitrary: n i)
  case Nil
  then show ?case by simp
next
  case (Cons img images)
  show ?case
  proof (cases i)
    case 0
    with Cons.prems show ?thesis by simp
  next
    case (Suc i')
    from Cons.prems Suc have here: "p n \<noteq> Raises" by force
    have a: "i' < length images" using Cons.prems Suc by simp
    have b: "p (Suc n + i') = Raises" using Cons.prems Suc by simp
    have c: "\<forall>j < i'. p (Suc n + j) \<noteq> Raises"
    proof (intro allI impI)
      fix j assume "j < i'"
      then have "Suc j < i" using Suc by simp
      with Cons.prems have "p (n + Suc j) \<noteq> Raises" by blast
      then show "p (Suc n + j) \<noteq> Raises" by simp
    qed
    from Cons.IH [OF a b c] here Suc show ?thesis
      by (cases "p n") simp_all
  qed
qed

lemma post_each_cases:
  "(fst (post_each p n images) = Inr () \<and> snd (post_each p n images) = map Post images)
   \<or> (fst (post_each p n images) = Inl RequestException
       \<and> (\<exists>i < length images. snd (post_each p n images) = map Post (take (Suc i) images)))"
proof (induction images arbitrary: n)
  case Nil
  then show ?case by simp
next
  case (Cons img images)
  show ?case
  proof (cases "p n")
    case Raises
    then show ?thesis by auto
  next
    case (Response status)
    from Cons.IH [of "Suc n"] show ?thesis
    proof
      assume "fst (post_each p (Suc n) images) = Inr () \<and> snd (post_each p (Suc n) images) = map Post images"
      then show ?thesis using Response by (simp add: case_prod_unfold)
    next
      assume "fst (post_each p (Suc n) images) = Inl RequestException
        \<and> (\<exists>i < length images. snd (post_each p (Suc n) images) = map Post (take (Suc i) images))"
      then obtain i where "i < length images"
        and "fst (post_each p (Suc n) images) = Inl RequestException"
        and "snd (post_each p (Suc n) images) = map Post (take (Suc i) images)" by blast
      then have "fst (post_each p n (img # images)) = Inl RequestException
        \<and> Suc i < length (img # images)
        \<and> snd (post_each p n (img # images)) = map Post (take (Suc (Suc i)) (img # images))"
        using Response by (simp add: case_prod_unfold)
      then show ?thesis by blast
    qed
  qed
qed

lemma post_each_removal_events: "\<forall>e \<in> set (snd (post_each p n images)). removal_event e"
  using post_each_cases [of p n images] by (auto dest: in_set_takeD)

lemma remove_each_Inr:
  "remove_each xs ys = Inr zs \<Longrightarrow> mset ys \<subseteq># mset xs \<and> mset zs = mset xs - mset ys"
proof (induction ys arbitrary: xs)
  case Nil
  then show ?case by simp
next
  case (Cons y ys)
  from Cons.prems have y: "y \<in> set xs" and r: "remove_each (remove1 y xs) ys = Inr zs"
    by (auto simp: list_remove_def split: if_splits)
  from Cons.IH [OF r] have "mset ys \<subseteq># mset xs - {#y#}" and "mset zs = mset xs - {#y#} - mset ys"
    by simp_all
  with y show ?case by (simp add: insert_subset_eq_iff)
qed

lemma remove_each_fold:
  "remove_each xs ys = Inr zs \<Longrightarrow> zs = foldl (\<lambda>v x. remove1 x v) xs ys"
proof (induction ys arbitrary: xs)
  case Nil
  then show ?case by simp
next
  case (Cons y ys)
  from Cons.prems have r: "remove_each (remove1 y xs) ys = Inr zs"
    by (auto simp: list_remove_def split: if_splits)
  from Cons.IH [OF r] show ?case by simp
qed

lemma remove_each_Inl:
  "remove_each xs ys = Inl e \<Longrightarrow>
   \<exists>x as bs. e = ValueError_not_in_list x \<and> ys = as @ x # bs
     \<and> mset as \<subseteq># mset xs \<and> count_list as x = count_list xs x"
proof (induction ys arbitrary: xs)
  case Nil
  then show ?case by simp
next
  case (Cons y ys)
  show ?case
  proof (cases "y \<in> set xs")
    case False
    with Cons.prems have "e = ValueError_not_in_list y" by (simp add: list_remove_def)
    moreover have "count_list [] y = count_list xs y" using False by (simp add: count_list_0_iff)
    ultimately have "e = ValueError_not_in_list y \<and> y # ys = [] @ y # ys
      \<and> mset [] \<subseteq># mset xs \<and> count_list [] y = count_list xs y" by simp
    then show ?thesis by blast
  next
    case True
    with Cons.prems have r: "remove_each (remove1 y xs) ys = Inl e" by (simp add: list_remove_def)
    from Cons.IH [OF r] obtain x as bs where e: "e = ValueError_not_in_list x"
      and ys: "ys = as @ x # bs" and sub: "mset as \<subseteq># mset (remove1 y xs)"
      and cnt: "count_list as x = count_list (remove1 y xs) x" by blast
    have sub': "mset (y # as) \<subseteq># mset xs"
      using sub True by (simp add: insert_subset_eq_iff)
    have "count (mset (y # as)) x = count (mset xs) x"
    proof -
      have "count (mset as) x = count (mset xs - {#y#}) x" using cnt by (simp add: count_mset)
      then show ?thesis using True by (cases "x = y") auto
    qed
    then have cnt': "count_list (y # as) x = count_list xs x" by (simp only: count_mset)
    have "e = ValueError_not_in_list x \<and> y # ys = (y # as) @ x # bs
      \<and> mset (y # as) \<subseteq># mset xs \<and> count_list (y # as) x = count_list xs x"
      using e ys sub' cnt' by simp
    then show ?thesis by blast
  qed
qed

lemma remove_each_fails:
  assumes "count_list xs x < count_list ys x"
  shows "\<exists>e. remove_each xs ys = Inl e"
proof (cases "remove_each xs ys")
  case (Inl e)
  then show ?thesis by blast
next
  case (Inr zs)
  from remove_each_Inr [OF Inr] have "mset ys \<subseteq># mset xs" by simp
  then have "count (mset ys) x \<le> count (mset xs) x" by (rule mset_subset_eq_count)
  with assms show ?thesis by (simp add: count_mset)
qed

lemma concat_map_if_replicate:
  "concat (map (\<lambda>k. if P k then [x] else []) ks) = replicate (length (filter P ks)) x"
  by (induction ks) simp_all

lemma count_list_replicate: "count_list (replicate n x) y = (if x = y then n else 0)"
  by (induction n) (auto split: if_splits)

lemma count_list_append2: "count_list (xs @ ys) y = count_list xs y + count_list ys y"
  by (induction xs) simp_all

lemma images_to_remove_replicate:
  "images_to_remove settings s f existing_images =
     concat (map (\<lambda>img. replicate (length (filter (listed settings img) (range_incl s f))) img)
       existing_images)"
  unfolding images_to_remove_def listed_def
  by (simp add: concat_map_if_replicate)

lemma images_to_remove_count:
  "count_list (images_to_remove settings s f existing_images) x
     = count_list existing_images x * length (filter (listed settings x) (range_incl s f))"
  unfolding images_to_remove_replicate
  by (induction existing_images) (simp_all add: count_list_append2 count_list_replicate)

lemma images_to_remove_subset:
  "set (images_to_remove settings s f existing_images) \<subseteq> set existing_images"
  unfolding images_to_remove_replicate by auto

lemma two_listed:
  assumes "k1 \<in> set ks" "k2 \<in> set ks" "k1 \<noteq> k2" "P k1" "P k2"
  shows "2 \<le> length (filter P ks)"
proof -
  have "{k1, k2} \<subseteq> set (filter P ks)" using assms by simp
  then have "card {k1, k2} \<le> card (set (filter P ks))" by (intro card_mono) simp_all
  also have "\<dots> \<le> length (filter P ks)" by (rule card_length)
  finally show ?thesis using assms(3) by simp
qed

lemma removal_phase_dry:
  "arg_remove args \<Longrightarrow> arg_dry_run args \<Longrightarrow>
   removal_phase env args settings existing_images
     = (remove_each existing_images
          (images_to_remove settings (arg_start args) (arg_finish args) existing_images),
        [Log Info Would_remove
           [sorted_ids (images_to_remove settings (arg_start args) (arg_finish args) existing_images)]])"
  by (simp add: removal_phase_def Let_def)

lemma removal_phase_posts_ok:
  assumes "arg_remove args" "\<not> arg_dry_run args"
    and "\<forall>j < length (images_to_remove settings (arg_start args) (arg_finish args) existing_images).
           post env j \<noteq> Raises"
  shows "removal_phase env args settings existing_images
     = (remove_each existing_images
          (images_to_remove settings (arg_start args) (arg_finish args) existing_images),
        Log Info Removing
           [sorted_ids (images_to_remove settings (arg_start args) (arg_finish args) existing_images)]
        # map Post (images_to_remove settings (arg_start args) (arg_finish args) existing_images))"
proof -
  have "post_each (post env) 0 (images_to_remove settings (arg_start args) (arg_finish args) existing_images)
     = (Inr (), map Post (images_to_remove settings (arg_start args) (arg_finish args) existing_images))"
    by (rule post_each_ok) (use assms(3) in simp)
  then show ?thesis using assms(1,2)
    by (simp add: removal_phase_def Let_def remove_images_def)
qed

lemma removal_phase_post_raises:
  assumes "arg_remove args" "\<not> arg_dry_run args"
    and "i < length (images_to_remove settings (arg_start args) (arg_finish args) existing_images)"
    and "post env i = Raises" and "\<forall>j < i. post env j \<noteq> Raises"
  shows "removal_phase env args settings existing_images
     = (Inl RequestException,
        Log Info Removing
           [sorted_ids (images_to_remove settings (arg_start args) (arg_finish args) existing_images)]
        # map Post (take (Suc i)
            (images_to_remove settings (arg_start args) (arg_finish args) existing_images)))"
proof -
  have "post_each (post env) 0 (images_to_remove settings (arg_start args) (arg_finish args) existing_images)
     = (Inl RequestException, map Post (take (Suc i)
          (images_to_remove settings (arg_start args) (arg_finish args) existing_images)))"
    by (rule post_each_raises) (use assms(3-5) in simp_all)
  then show ?thesis using assms(1,2)
    by (simp add: removal_phase_def Let_def remove_images_def)
qed

lemma removal_phase_no_post_failure:
  assumes "arg_remove args"
    and "arg_dry_run args
         \<or> (\<forall>j < length (images_to_remove settings (arg_start args) (arg_finish args) existing_images).
               post env j \<noteq> Raises)"
  shows "fst (removal_phase env args settings existing_images)
     = remove_each existing_images
         (images_to_remove settings (arg_start args) (arg_finish args) existing_images)"
proof (cases "arg_dry_run args")
  case True
  then show ?thesis using assms(1) by (simp add: removal_phase_dry)
next
  case False
  with assms(2) have "\<forall>j < length (images_to_remove settings (arg_start args) (arg_finish args) existing_images).
               post env j \<noteq> Raises" by blast
  from removal_phase_posts_ok [OF assms(1) False this] show ?thesis by simp
qed

lemma removal_phase_fails:
  assumes "arg_remove args"
    and "count_list existing_images x
           < count_list (images_to_remove settings (arg_start args) (arg_finish args) existing_images) x"
  shows "\<exists>e. fst (removal_phase env args settings existing_images) = Inl e"
proof -
  from remove_each_fails [OF assms(2)] obtain e where
    "remove_each existing_images
       (images_to_remove settings (arg_start args) (arg_finish args) existing_images) = Inl e" by blast
  then show ?thesis using assms(1)
    by (auto simp: removal_phase_def Let_def split: sum.splits)
qed

lemma removal_phase_events:
  "\<forall>e \<in> set (snd (removal_phase env args settings existing_images)). removal_event e"
  using post_each_removal_events [of "post env" 0
    "images_to_remove settings (arg_start args) (arg_finish args) existing_images"]
  by (auto simp: removal_phase_def Let_def remove_images_def case_prod_unfold split: sum.splits)

lemma removal_events_submitted: "\<forall>e \<in> set es. removal_event e \<Longrightarrow> submitted es = []"
proof (induction es)
  case Nil
  then show ?case by simp
next
  case (Cons e es)
  then show ?case by (cases e) simp_all
qed

lemma removal_events_would_upload: "\<forall>e \<in> set es. removal_event e \<Longrightarrow> would_upload es = []"
proof (induction es)
  case Nil
  then show ?case by simp
next
  case (Cons e es)
  then show ?case by (cases e) auto
qed

lemma removal_events_in_flight:
  "\<forall>e \<in> set es. removal_event e \<Longrightarrow> foldl in_flight_step fs es = fs"
proof (induction es)
  case Nil
  then show ?case by simp
next
  case (Cons e es)
  then show ?case by (cases e) simp_all
qed

lemma removal_phase_view:
  assumes "removal_phase env args settings existing_images = (Inr existing_images', es)"
  shows "existing_images' = foldl (\<lambda>v x. remove1 x v) existing_images
           (if arg_remove args
            then images_to_remove settings (arg_start args) (arg_finish args) existing_images else [])"
    and "mset existing_images' = mset existing_images - mset
           (if arg_remove args
            then images_to_remove settings (arg_start args) (arg_finish args) existing_images else [])"
    and "mset (if arg_remove args
            then images_to_remove settings (arg_start args) (arg_finish args) existing_images else [])
          \<subseteq># mset existing_images"
proof -
  let ?rm = "images_to_remove settings (arg_start args) (arg_finish args) existing_images"
  have "(\<not> arg_remove args \<and> existing_images' = existing_images)
        \<or> (arg_remove args \<and> remove_each existing_images ?rm = Inr existing_images')"
    using assms
    by (auto simp: removal_phase_def Let_def split: if_splits sum.splits)
  then show "existing_images' = foldl (\<lambda>v x. remove1 x v) existing_images (if arg_remove args then ?rm else [])"
    and "mset existing_images' = mset existing_images - mset (if arg_remove args then ?rm else [])"
    and "mset (if arg_remove args then ?rm else []) \<subseteq># mset existing_images"
    using remove_each_Inr [of existing_images ?rm existing_images']
      remove_each_fold [of existing_images ?rm existing_images']
    by auto
qed

subsection \<open>\<^verbatim>\<open>main\<close> by the outcome of the removal phase\<close>

lemma main_Inl:
  "removal_phase env args settings existing_images = (Inl e, es) \<Longrightarrow>
   main env args settings existing_images
     = \<lparr>result = Inl e, view = existing_images, trace = es, tasks = []\<rparr>"
  by (simp add: main_def)

lemma main_Inr:
  "removal_phase env args settings existing_images = (Inr existing_images', es) \<Longrightarrow>
   main env args settings existing_images
     = \<lparr>result = fst (upload_phase env args settings existing_images' es),
        view = existing_images',
        trace = events (snd (upload_phase env args settings existing_images' es)),
        tasks = futures (snd (upload_phase env args settings existing_images' es))\<rparr>"
  by (simp add: main_def case_prod_unfold)

lemma main_result_Inr:
  assumes "result (main env args settings existing_images) = Inr ()"
  shows "\<exists>existing_images' es.
           removal_phase env args settings existing_images = (Inr existing_images', es)
           \<and> (arg_upload args \<longrightarrow> 0 < arg_threads args)"
proof (cases "removal_phase env args settings existing_images")
  case (Pair r es)
  show ?thesis
  proof (cases r)
    case (Inl e)
    with Pair assms show ?thesis by (simp add: main_Inl)
  next
    case (Inr v)
    with Pair assms show ?thesis
      by (auto simp: main_Inr upload_phase_result split: if_splits)
  qed
qed

lemma example_keys: "id_key 2 = ''2.id''" "id_key 3 = ''3.id''" "filename_key 2 = ''2.filename''" "filename_key 3 = ''3.filename''"
  by code_simp+

text \<open>
  Claim C4, as the specification states it, fails: the view loses the planned
  removals whether or not a remote call removed anything. In a dry run no removal
  form is posted at all, so nothing was removed remotely, and the image leaves
  \<^verbatim>\<open>existing_images\<close> all the same; so it does in a real run whose one POST is
  answered with status 500.
\<close>

theorem view_without_remote_removal_counterexample:
  "result (main quiet_env
      \<lparr>arg_start = 2, arg_finish = 2, arg_upload = False, arg_remove = True,
       arg_dry_run = True, arg_threads = 4\<rparr>
      [''2.id'' \<mapsto> ''a''] [image_a]) = Inr ()
   \<and> posted (trace (main quiet_env
      \<lparr>arg_start = 2, arg_finish = 2, arg_upload = False, arg_remove = True,
       arg_dry_run = True, arg_threads = 4\<rparr>
      [''2.id'' \<mapsto> ''a''] [image_a])) = []
   \<and> view (main quiet_env
      \<lparr>arg_start = 2, arg_finish = 2, arg_upload = False, arg_remove = True,
       arg_dry_run = True, arg_threads = 4\<rparr>
      [''2.id'' \<mapsto> ''a''] [image_a]) = []
   \<and> view (main quiet_env
      \<lparr>arg_start = 2, arg_finish = 2, arg_upload = False, arg_remove = True,
       arg_dry_run = True, arg_threads = 4\<rparr>
      [''2.id'' \<mapsto> ''a''] [image_a]) \<noteq> [image_a]
   \<and> post rejecting_env 0 = Response 500
   \<and> posted (trace (main rejecting_env
      \<lparr>arg_start = 2, arg_finish = 2, arg_upload = False, arg_remove = True,
       arg_dry_run = False, arg_threads = 4\<rparr>
      [''2.id'' \<mapsto> ''a''] [image_a])) = [image_a]
   \<and> view (main rejecting_env
      \<lparr>arg_start = 2, arg_finish = 2, arg_upload = False, arg_remove = True,
       arg_dry_run = False, arg_threads = 4\<rparr>
      [''2.id'' \<mapsto> ''a''] [image_a]) = []"
  by code_simp

text \<open>
  Claim C5, as the specification states it, fails: \<^verbatim>\<open>remove\<close> has no handler
  around its POST. With two planned removals and an upload to make, a first POST
  that raises ends the run: the second image is never posted, nothing is submitted,
  and no record of the failure is logged.
\<close>

theorem removal_failure_ends_run_counterexample:
  "main first_post_fails_env
      \<lparr>arg_start = 2, arg_finish = 3, arg_upload = True, arg_remove = True,
       arg_dry_run = False, arg_threads = 4\<rparr>
      [''2.id'' \<mapsto> ''a|b'', ''2.filename'' \<mapsto> ''x|y'', ''3.id'' \<mapsto> ''c'', ''3.filename'' \<mapsto> ''z'']
      [image_a, image_b]
    = \<lparr>result = Inl RequestException, view = [image_a, image_b],
       trace = [Log Info Removing [''a, b''], Post image_a], tasks = []\<rparr>"
  by code_simp

text \<open>
  Claim C5, amended: for every planned-removal collection the forms are posted in
  order; a POST that raises is neither caught nor logged, the exception leaves
  \<^verbatim>\<open>remove\<close> and \<^verbatim>\<open>main\<close>, and the run ends there: the removals before it were
  posted, the remaining ones and the addition phase are not executed. When no POST
  raises (whatever the responses are), every planned removal is posted and the run
  does not end with that exception.
\<close>

theorem removal_posts_until_first_failure:
  assumes "arg_remove args" and "\<not> arg_dry_run args"
  shows "(i < length (images_to_remove settings (arg_start args) (arg_finish args) existing_images)
               \<and> post env i = Raises \<and> (\<forall>j < i. post env j \<noteq> Raises) \<longrightarrow>
            main env args settings existing_images
              = \<lparr>result = Inl RequestException, view = existing_images,
                 trace = Log Info Removing
                     [sorted_ids (images_to_remove settings (arg_start args) (arg_finish args) existing_images)]
                   # map Post (take (Suc i)
                       (images_to_remove settings (arg_start args) (arg_finish args) existing_images)),
                 tasks = []\<rparr>)
       \<and> ((\<forall>j < length (images_to_remove settings (arg_start args) (arg_finish args) existing_images).
              post env j \<noteq> Raises) \<longrightarrow>
            posted (trace (main env args settings existing_images))
              = images_to_remove settings (arg_start args) (arg_finish args) existing_images
            \<and> result (main env args settings existing_images) \<noteq> Inl RequestException)"
proof (intro conjI impI)
  assume "i < length (images_to_remove settings (arg_start args) (arg_finish args) existing_images)
               \<and> post env i = Raises \<and> (\<forall>j < i. post env j \<noteq> Raises)"
  then show "main env args settings existing_images
              = \<lparr>result = Inl RequestException, view = existing_images,
                 trace = Log Info Removing
                     [sorted_ids (images_to_remove settings (arg_start args) (arg_finish args) existing_images)]
                   # map Post (take (Suc i)
                       (images_to_remove settings (arg_start args) (arg_finish args) existing_images)),
                 tasks = []\<rparr>"
    using removal_phase_post_raises [OF assms, of i settings existing_images env]
    by (simp add: main_Inl)
next
  let ?rm = "images_to_remove settings (arg_start args) (arg_finish args) existing_images"
  assume ok: "\<forall>j < length ?rm. post env j \<noteq> Raises"
  have rp: "removal_phase env args settings existing_images
     = (remove_each existing_images ?rm, Log Info Removing [sorted_ids ?rm] # map Post ?rm)"
    by (rule removal_phase_posts_ok [OF assms ok])
  have p: "posted (map Post xs) = xs" for xs :: "'a Image list"
    by (induction xs) simp_all
  show "posted (trace (main env args settings existing_images)) = ?rm"
  proof (cases "remove_each existing_images ?rm")
    case (Inl e)
    with rp show ?thesis by (simp add: main_Inl p)
  next
    case (Inr v)
    with rp show ?thesis by (simp add: main_Inr upload_phase_posted p)
  qed
  show "result (main env args settings existing_images) \<noteq> Inl RequestException"
  proof (cases "remove_each existing_images ?rm")
    case (Inl e)
    from remove_each_Inl [OF Inl] have "e \<noteq> RequestException" by auto
    with Inl rp show ?thesis by (simp add: main_Inl)
  next
    case (Inr v)
    with rp show ?thesis by (simp add: main_Inr upload_phase_result)
  qed
qed

theorem removal_posts_until_first_failure_witness:
  "arg_remove \<lparr>arg_start = 2, arg_finish = 3, arg_upload = True, arg_remove = True,
       arg_dry_run = False, arg_threads = 4\<rparr>
   \<and> \<not> arg_dry_run \<lparr>arg_start = 2, arg_finish = 3, arg_upload = True, arg_remove = True,
       arg_dry_run = False, arg_threads = 4\<rparr>
   \<and> images_to_remove [''2.id'' \<mapsto> ''a|b'', ''3.id'' \<mapsto> ''c''] 2 3 [image_a, image_b]
       = [image_a, image_b]
   \<and> post first_post_fails_env 0 = Raises
   \<and> main first_post_fails_env
        \<lparr>arg_start = 2, arg_finish = 3, arg_upload = True, arg_remove = True,
         arg_dry_run = False, arg_threads = 4\<rparr>
        [''2.id'' \<mapsto> ''a|b'', ''3.id'' \<mapsto> ''c''] [image_a, image_b]
       = \<lparr>result = Inl RequestException, view = [image_a, image_b],
          trace = [Log Info Removing [''a, b''], Post image_a], tasks = []\<rparr>"
proof -
  let ?args = "\<lparr>arg_start = 2, arg_finish = 3, arg_upload = True, arg_remove = True,
       arg_dry_run = False, arg_threads = 4\<rparr>"
  have h1: "arg_remove ?args" and h2: "\<not> arg_dry_run ?args" by simp_all
  have rm: "images_to_remove [''2.id'' \<mapsto> ''a|b'', ''3.id'' \<mapsto> ''c''] 2 3 [image_a, image_b]
       = [image_a, image_b]" by code_simp
  have p: "post first_post_fails_env 0 = Raises" by (simp add: first_post_fails_env_def)
  have s: "sorted_ids [image_a, image_b] = ''a, b''" by code_simp
  show ?thesis
    using h1 h2 rm p s
      removal_posts_until_first_failure [OF h1 h2, of 0 "[''2.id'' \<mapsto> ''a|b'', ''3.id'' \<mapsto> ''c'']" "[image_a, image_b]"
          first_post_fails_env]
    by simp
qed

lemma distinct_count_list:
  "distinct xs \<Longrightarrow> x \<in> set xs \<Longrightarrow> count_list xs x = 1"
  by (induction xs) (auto simp: count_list_0_iff)

text \<open>
  Claim C9: when the identifier of an image of the snapshot is listed at two
  distinct positions of the range (and \<^verbatim>\<open>--remove\<close> is on), the tuple
  \<^verbatim>\<open>images_to_remove\<close> holds that image at least twice and the run ends with an
  exception before anything is dispatched for upload; unless a POST of \<^verbatim>\<open>remove\<close>
  raised first, the exception is the \<^verbatim>\<open>ValueError\<close> of \<^verbatim>\<open>list.remove\<close>, raised at an
  entry of the tuple that already occurs before it, as often as the view holds it
  (once, for a view without repetitions: the second occurrence).
\<close>

theorem image_listed_twice_raises_ValueError:
  assumes "arg_remove args"
    and "img \<in> set existing_images"
    and "arg_start args \<le> k1" "k1 \<le> arg_finish args"
    and "arg_start args \<le> k2" "k2 \<le> arg_finish args"
    and "k1 \<noteq> k2"
    and "settings (id_key k1) = Some v1" "ident img \<in> set (split_pipe v1)"
    and "settings (id_key k2) = Some v2" "ident img \<in> set (split_pipe v2)"
  shows "2 \<le> count_list (images_to_remove settings (arg_start args) (arg_finish args) existing_images) img
       \<and> (\<exists>e. result (main env args settings existing_images) = Inl e)
       \<and> submitted (trace (main env args settings existing_images)) = []
       \<and> would_upload (trace (main env args settings existing_images)) = []
       \<and> (arg_dry_run args
            \<or> (\<forall>j < length (images_to_remove settings (arg_start args) (arg_finish args) existing_images).
                  post env j \<noteq> Raises)
          \<longrightarrow> (\<exists>x before after.
                result (main env args settings existing_images) = Inl (ValueError_not_in_list x)
                \<and> images_to_remove settings (arg_start args) (arg_finish args) existing_images
                    = before @ x # after
                \<and> x \<in> set before
                \<and> count_list before x = count_list existing_images x
                \<and> (distinct existing_images \<longrightarrow> count_list before x = 1)))"
proof -
  let ?rm = "images_to_remove settings (arg_start args) (arg_finish args) existing_images"
  let ?ks = "range_incl (arg_start args) (arg_finish args)"
  have l1: "listed settings img k1" and l2: "listed settings img k2"
    using assms(8-11) by (simp_all add: listed_def)
  have "k1 \<in> set ?ks" and "k2 \<in> set ?ks"
    using assms(3-6) by (simp_all add: range_incl_def)
  then have two: "2 \<le> length (filter (listed settings img) ?ks)"
    using assms(7) l1 l2 by (rule two_listed)
  have "count_list existing_images img \<noteq> 0"
    using assms(2) by (simp add: count_list_0_iff)
  then have pos: "1 \<le> count_list existing_images img" by simp
  have cnt: "count_list ?rm img = count_list existing_images img * length (filter (listed settings img) ?ks)"
    by (rule images_to_remove_count)
  have "count_list existing_images img * 2
          \<le> count_list existing_images img * length (filter (listed settings img) ?ks)"
    using two by (rule mult_le_mono2)
  with cnt have twice: "count_list existing_images img * 2 \<le> count_list ?rm img" by simp
  with pos have c1: "2 \<le> count_list ?rm img" by linarith
  from twice pos have more: "count_list existing_images img < count_list ?rm img" by linarith
  from removal_phase_fails [OF assms(1) more] obtain e where
    e: "fst (removal_phase env args settings existing_images) = Inl e" by blast
  then have rp: "removal_phase env args settings existing_images
                  = (Inl e, snd (removal_phase env args settings existing_images))"
    by (metis prod.collapse)
  have m: "main env args settings existing_images
            = \<lparr>result = Inl e, view = existing_images,
               trace = snd (removal_phase env args settings existing_images), tasks = []\<rparr>"
    by (rule main_Inl [OF rp])
  have c2: "\<exists>e. result (main env args settings existing_images) = Inl e" using m by simp
  have c3: "submitted (trace (main env args settings existing_images)) = []"
    using m removal_events_submitted [OF removal_phase_events] by simp
  have c4: "would_upload (trace (main env args settings existing_images)) = []"
    using m removal_events_would_upload [OF removal_phase_events] by simp
  have c5: "\<exists>x before after.
                result (main env args settings existing_images) = Inl (ValueError_not_in_list x)
                \<and> ?rm = before @ x # after \<and> x \<in> set before
                \<and> count_list before x = count_list existing_images x
                \<and> (distinct existing_images \<longrightarrow> count_list before x = 1)"
    if ok: "arg_dry_run args \<or> (\<forall>j < length ?rm. post env j \<noteq> Raises)"
  proof -
    from removal_phase_no_post_failure [OF assms(1) ok] e
    have "remove_each existing_images ?rm = Inl e" by simp
    from remove_each_Inl [OF this] obtain x as bs where
      ex: "e = ValueError_not_in_list x" and rm: "?rm = as @ x # bs"
      and eq: "count_list as x = count_list existing_images x" by blast
    have "x \<in> set ?rm" using rm by simp
    then have mem: "x \<in> set existing_images" using images_to_remove_subset by blast
    then have "count_list existing_images x \<noteq> 0" by (simp add: count_list_0_iff)
    with eq have before: "x \<in> set as" by (metis count_list_0_iff)
    have once: "distinct existing_images \<longrightarrow> count_list as x = 1"
      using eq mem by (simp add: distinct_count_list)
    have "result (main env args settings existing_images) = Inl (ValueError_not_in_list x)"
      using ex m by simp
    with rm before eq once show ?thesis by blast
  qed
  from c1 c2 c3 c4 c5 show ?thesis by blast
qed

theorem image_listed_twice_raises_ValueError_witness:
  "image_a \<in> set [image_a, image_b]
   \<and> [''2.id'' \<mapsto> ''a'', ''3.id'' \<mapsto> ''a|b''] (id_key 2) = Some ''a''
   \<and> ident image_a \<in> set (split_pipe ''a'')
   \<and> [''2.id'' \<mapsto> ''a'', ''3.id'' \<mapsto> ''a|b''] (id_key 3) = Some ''a|b''
   \<and> ident image_a \<in> set (split_pipe ''a|b'')
   \<and> 2 \<le> count_list (images_to_remove [''2.id'' \<mapsto> ''a'', ''3.id'' \<mapsto> ''a|b''] 2 3
                        [image_a, image_b]) image_a
   \<and> result (main quiet_env
        \<lparr>arg_start = 2, arg_finish = 3, arg_upload = True, arg_remove = True,
         arg_dry_run = False, arg_threads = 4\<rparr>
        [''2.id'' \<mapsto> ''a'', ''3.id'' \<mapsto> ''a|b''] [image_a, image_b])
       = Inl (ValueError_not_in_list image_a)
   \<and> submitted (trace (main quiet_env
        \<lparr>arg_start = 2, arg_finish = 3, arg_upload = True, arg_remove = True,
         arg_dry_run = False, arg_threads = 4\<rparr>
        [''2.id'' \<mapsto> ''a'', ''3.id'' \<mapsto> ''a|b''] [image_a, image_b])) = []"
proof -
  let ?args = "\<lparr>arg_start = 2, arg_finish = 3, arg_upload = True, arg_remove = True,
         arg_dry_run = False, arg_threads = 4\<rparr>"
  let ?settings = "[''2.id'' \<mapsto> ''a'', ''3.id'' \<mapsto> ''a|b'']"
  have h1: "arg_remove ?args" by simp
  have h2: "image_a \<in> set [image_a, image_b]" by simp
  have h3: "arg_start ?args \<le> 2" "2 \<le> arg_finish ?args" "arg_start ?args \<le> 3" "3 \<le> arg_finish ?args"
    "(2::int) \<noteq> 3" by simp_all
  have h4: "?settings (id_key 2) = Some ''a''" by (simp add: example_keys)
  have h5: "ident image_a \<in> set (split_pipe ''a'')" by (simp add: image_a_def)
  have h6: "?settings (id_key 3) = Some ''a|b''" by (simp add: example_keys)
  have h7: "ident image_a \<in> set (split_pipe ''a|b'')" by (simp add: image_a_def)
  have r: "result (main quiet_env ?args ?settings [image_a, image_b])
             = Inl (ValueError_not_in_list image_a)" by code_simp
  from image_listed_twice_raises_ValueError [OF h1 h2 h3 h4 h5 h6 h7, of quiet_env]
  have a: "2 \<le> count_list (images_to_remove ?settings (arg_start ?args) (arg_finish ?args)
                          [image_a, image_b]) image_a"
    and b: "submitted (trace (main quiet_env ?args ?settings [image_a, image_b])) = []"
    by blast+
  from a have a': "2 \<le> count_list (images_to_remove ?settings 2 3 [image_a, image_b]) image_a"
    by simp
  from h2 h4 h5 h6 h7 a' r b show ?thesis by (intro conjI)
qed

subsection \<open>What is dispatched against the snapshot\<close>

lemma removal_phase_snd_events:
  assumes "removal_phase env args settings existing_images = (r, es)"
  shows "submitted es = []" and "would_upload es = []"
    and "\<forall>e \<in> set es. removal_event e"
proof -
  have "es = snd (removal_phase env args settings existing_images)" using assms by simp
  then show "\<forall>e \<in> set es. removal_event e" using removal_phase_events by blast
  then show "submitted es = []" and "would_upload es = []"
    by (rule removal_events_submitted, rule removal_events_would_upload)
qed

lemma main_Inl_dispatch:
  assumes "removal_phase env args settings existing_images = (Inl e, es)"
  shows "submitted (trace (main env args settings existing_images)) = []"
    and "would_upload (trace (main env args settings existing_images)) = []"
  using main_Inl [OF assms] removal_phase_snd_events(1,2) [OF assms] by simp_all

lemma main_Inr_dispatch:
  assumes "removal_phase env args settings existing_images = (Inr existing_images', es)"
  shows "submitted (trace (main env args settings existing_images))
           = (if arg_upload args \<and> 0 < arg_threads args \<and> \<not> arg_dry_run args
              then planned_uploads settings (arg_start args) (arg_finish args) existing_images'
              else [])"
    and "would_upload (trace (main env args settings existing_images))
           = (if arg_upload args \<and> 0 < arg_threads args \<and> arg_dry_run args
              then map ident (planned_uploads settings (arg_start args) (arg_finish args) existing_images')
              else [])"
  using main_Inr [OF assms] removal_phase_snd_events(1,2) [OF assms]
  by (simp_all add: upload_phase_submitted upload_phase_would_upload)

text \<open>
  Claim C4, amended: when the removal phase completes, the working view
  \<^verbatim>\<open>existing_images\<close> has had removed from it exactly the planned removals, one
  \<^verbatim>\<open>list.remove\<close> for every entry of \<^verbatim>\<open>images_to_remove\<close> (none when \<^verbatim>\<open>--remove\<close>
  is off), whatever the remote calls answered and also in a dry run, where none is
  made; that view is the one the addition phase tests against: the run submits (or,
  in a dry run, reports) exactly the expanded images whose identifier is not in it.
\<close>

theorem view_after_removal_phase:
  fixes existing_images' :: "'f Image list"
  assumes "removal_phase env args settings existing_images = (Inr existing_images', es)"
  shows "existing_images' = foldl (\<lambda>v x. remove1 x v) existing_images
           (if arg_remove args
            then images_to_remove settings (arg_start args) (arg_finish args) existing_images else [])
       \<and> mset existing_images' = mset existing_images - mset
           (if arg_remove args
            then images_to_remove settings (arg_start args) (arg_finish args) existing_images else [])
       \<and> view (main env args settings existing_images) = existing_images'
       \<and> submitted (trace (main env args settings existing_images))
           = (if arg_upload args \<and> 0 < arg_threads args \<and> \<not> arg_dry_run args
              then concat (map (\<lambda>k. case settings (id_key k) of
                       None \<Rightarrow> []
                     | Some v \<Rightarrow>
                         filter (\<lambda>img. ident img \<notin> set (map ident existing_images'))
                           (expand_images v (settings (filename_key k))))
                     (range_incl (arg_start args) (arg_finish args)))
              else [])
       \<and> would_upload (trace (main env args settings existing_images))
           = (if arg_upload args \<and> 0 < arg_threads args \<and> arg_dry_run args
              then map ident (concat (map (\<lambda>k. case settings (id_key k) of
                       None \<Rightarrow> []
                     | Some v \<Rightarrow>
                         filter (\<lambda>img. ident img \<notin> set (map ident existing_images'))
                           (expand_images v (settings (filename_key k)) :: 'f Image list))
                     (range_incl (arg_start args) (arg_finish args))))
              else [])"
proof -
  have p: "planned_uploads settings (arg_start args) (arg_finish args) existing_images'
      = concat (map (\<lambda>k. case settings (id_key k) of
                       None \<Rightarrow> []
                     | Some v \<Rightarrow>
                         filter (\<lambda>img. ident img \<notin> set (map ident existing_images'))
                           (expand_images v (settings (filename_key k))))
                     (range_incl (arg_start args) (arg_finish args)))"
    unfolding planned_uploads_def
    by (rule arg_cong [where f = concat], rule map_cong [OF refl]) (simp add: planned_at_def)
  have v: "view (main env args settings existing_images) = existing_images'"
    using main_Inr [OF assms] by simp
  from removal_phase_view(1) [OF assms] removal_phase_view(2) [OF assms] v
    main_Inr_dispatch(1) [OF assms, unfolded p] main_Inr_dispatch(2) [OF assms, unfolded p]
  show ?thesis by (intro conjI)
qed

theorem view_after_removal_phase_witness:
  "removal_phase quiet_env
      \<lparr>arg_start = 2, arg_finish = 2, arg_upload = True, arg_remove = True,
       arg_dry_run = False, arg_threads = 4\<rparr>
      [''2.id'' \<mapsto> ''a|b''] [image_a, image_b]
     = (Inr [], [Log Info Removing [''a, b''], Post image_a, Post image_b])
   \<and> view (main quiet_env
      \<lparr>arg_start = 2, arg_finish = 2, arg_upload = True, arg_remove = True,
       arg_dry_run = False, arg_threads = 4\<rparr>
      [''2.id'' \<mapsto> ''a|b''] [image_a, image_b]) = []
   \<and> submitted (trace (main quiet_env
      \<lparr>arg_start = 2, arg_finish = 2, arg_upload = True, arg_remove = True,
       arg_dry_run = False, arg_threads = 4\<rparr>
      [''2.id'' \<mapsto> ''a|b''] [image_a, image_b]))
     = [\<lparr>ident = ''a'', filename = Some '''', remove_form = None\<rparr>]
   \<and> removal_phase quiet_env
      \<lparr>arg_start = 2, arg_finish = 2, arg_upload = True, arg_remove = False,
       arg_dry_run = False, arg_threads = 4\<rparr>
      [''2.id'' \<mapsto> ''a|b''] [image_a, image_b]
     = (Inr [image_a, image_b], [])
   \<and> submitted (trace (main quiet_env
      \<lparr>arg_start = 2, arg_finish = 2, arg_upload = True, arg_remove = False,
       arg_dry_run = False, arg_threads = 4\<rparr>
      [''2.id'' \<mapsto> ''a|b''] [image_a, image_b])) = []"
proof -
  let ?on = "\<lparr>arg_start = 2, arg_finish = 2, arg_upload = True, arg_remove = True,
       arg_dry_run = False, arg_threads = 4\<rparr>"
  let ?off = "\<lparr>arg_start = 2, arg_finish = 2, arg_upload = True, arg_remove = False,
       arg_dry_run = False, arg_threads = 4\<rparr>"
  let ?settings = "[''2.id'' \<mapsto> ''a|b'']"
  let ?plan = "\<lambda>seen :: nat Image list. concat (map (\<lambda>k. case ?settings (id_key k) of
                       None \<Rightarrow> []
                     | Some v \<Rightarrow>
                         filter (\<lambda>img. ident img \<notin> set (map ident seen))
                           (expand_images v (?settings (filename_key k))))
                     (range_incl 2 2)) :: nat Image list"
  have h: "removal_phase quiet_env ?on ?settings [image_a, image_b]
     = (Inr [], [Log Info Removing [''a, b''], Post image_a, Post image_b])"
    by code_simp
  have h': "removal_phase quiet_env ?off ?settings [image_a, image_b]
     = (Inr [image_a, image_b], [])"
    by code_simp
  have p: "?plan [] = [\<lparr>ident = ''a'', filename = Some '''', remove_form = None\<rparr>]"
    by code_simp
  have p': "?plan [image_a, image_b] = []"
    by code_simp
  from view_after_removal_phase [OF h]
  have v: "view (main quiet_env ?on ?settings [image_a, image_b]) = []"
    and s: "submitted (trace (main quiet_env ?on ?settings [image_a, image_b])) = ?plan []"
    by simp_all
  from view_after_removal_phase [OF h']
  have s': "submitted (trace (main quiet_env ?off ?settings [image_a, image_b]))
              = ?plan [image_a, image_b]"
    by simp
  from h v s [unfolded p] h' s' [unfolded p'] show ?thesis by (intro conjI)
qed

lemma planned_uploads_fresh:
  "img \<in> set (planned_uploads settings s f existing_images) \<Longrightarrow>
   ident img \<notin> set (map ident existing_images)"
  by (auto simp: planned_uploads_def planned_at_def split: option.splits)

lemma planned_uploads_member:
  assumes "k \<in> set (range_incl s f)" and "settings (id_key k) = Some v"
    and "img \<in> set (expand_images v (settings (filename_key k)))"
    and "ident img \<notin> set (map ident existing_images)"
  shows "img \<in> set (planned_uploads settings s f existing_images)"
proof -
  have "img \<in> set (planned_at settings existing_images k)"
    using assms(2-4) by (simp add: planned_at_def)
  with assms(1) show ?thesis by (auto simp: planned_uploads_def)
qed

lemma view_lost:
  assumes "mset v = mset xs - mset rm" and "e \<in> set xs" and "e \<notin> set v"
  shows "e \<in> set rm"
proof (rule ccontr)
  assume "e \<notin> set rm"
  then have a: "count (mset rm) e = 0" by (simp add: count_eq_zero_iff)
  have b: "0 < count (mset xs) e" using assms(2) by (simp add: count_greater_zero_iff)
  have "count (mset rm) e < count (mset xs) e" unfolding a by (rule b)
  then have "e \<in># mset xs - mset rm" by (simp only: in_diff_count)
  then have "e \<in> set v" using assms(1) by (metis set_mset_mset)
  with assms(3) show False by simp
qed

lemma removed_ident_gone:
  assumes rp: "removal_phase env args settings existing_images = (Inr existing_images', es)"
    and "arg_remove args"
    and k: "k \<in> set (range_incl (arg_start args) (arg_finish args))"
    and v: "settings (id_key k) = Some v" and i: "i \<in> set (split_pipe v)"
  shows "i \<notin> set (map ident existing_images')"
proof
  let ?rm = "images_to_remove settings (arg_start args) (arg_finish args) existing_images"
  let ?ks = "range_incl (arg_start args) (arg_finish args)"
  assume "i \<in> set (map ident existing_images')"
  then obtain e where e: "e \<in> set existing_images'" and ie: "ident e = i" by auto
  from removal_phase_view(2,3) [OF rp] assms(2)
  have view: "mset existing_images' = mset existing_images - mset ?rm"
    and sub: "mset ?rm \<subseteq># mset existing_images" by simp_all
  have "listed settings e k" using v i ie by (simp add: listed_def)
  with k have "k \<in> set (filter (listed settings e) ?ks)" by simp
  then have "filter (listed settings e) ?ks \<noteq> []" by (metis empty_iff empty_set)
  then have "1 \<le> length (filter (listed settings e) ?ks)" by (simp add: Suc_le_eq)
  then have "count_list existing_images e * 1
               \<le> count_list existing_images e * length (filter (listed settings e) ?ks)"
    by (rule mult_le_mono2)
  then have "count_list existing_images e \<le> count_list ?rm e"
    by (simp add: images_to_remove_count)
  then have "count (mset existing_images) e \<le> count (mset ?rm) e" by (simp only: count_mset)
  then have "count (mset existing_images') e = 0" using view by simp
  with e show False by (simp add: count_eq_zero_iff)
qed

text \<open>
  Claim C1: in every run, an identifier dispatched for upload (submitted, or
  reported by a dry run) that is present in the snapshot was selected for removal
  in the same run; and when \<^verbatim>\<open>--remove\<close> and \<^verbatim>\<open>--upload\<close> are both on, every
  item of a position of the range is dispatched by a run that completes: its
  identifier is in the identifier list that also selects the removals, so the
  removal has taken it out of the view and it is not skipped as already present.
\<close>

theorem uploads_avoid_untouched_snapshot:
  "(i \<in> set (dispatched_ids (trace (main env args settings existing_images)))
      \<and> i \<in> set (map ident existing_images)
    \<longrightarrow> arg_remove args
        \<and> i \<in> set (map ident
              (images_to_remove settings (arg_start args) (arg_finish args) existing_images)))
   \<and> (arg_remove args \<and> arg_upload args
        \<and> result (main env args settings existing_images) = Inr ()
        \<and> arg_start args \<le> k \<and> k \<le> arg_finish args
        \<and> settings (id_key k) = Some v
        \<and> img \<in> set (expand_images v (settings (filename_key k)))
      \<longrightarrow> (if arg_dry_run args
           then ident img \<in> set (would_upload (trace (main env args settings existing_images)))
           else img \<in> set (submitted (trace (main env args settings existing_images)))))"
proof (rule conjI; rule impI)
  let ?m = "main env args settings existing_images"
  let ?rm = "images_to_remove settings (arg_start args) (arg_finish args) existing_images"
  assume a: "i \<in> set (dispatched_ids (trace ?m)) \<and> i \<in> set (map ident existing_images)"
  obtain r es where rp: "removal_phase env args settings existing_images = (r, es)"
    by (cases "removal_phase env args settings existing_images")
  show "arg_remove args \<and> i \<in> set (map ident ?rm)"
  proof (cases r)
    case (Inl e)
    with rp main_Inl_dispatch [of env args settings existing_images e es] a
    show ?thesis by (simp add: dispatched_ids_def)
  next
    case (Inr v)
    with rp have rp': "removal_phase env args settings existing_images = (Inr v, es)" by simp
    from a main_Inr_dispatch [OF rp']
    have "i \<in> set (map ident (planned_uploads settings (arg_start args) (arg_finish args) v))"
      by (auto simp: dispatched_ids_def split: if_splits)
    then have fresh: "i \<notin> set (map ident v)" using planned_uploads_fresh by fastforce
    from a obtain e where e: "e \<in> set existing_images" and ie: "ident e = i" by auto
    from fresh ie have "e \<notin> set v" by auto
    with removal_phase_view(2) [OF rp'] e
    have "e \<in> set (if arg_remove args then ?rm else [])" by (rule view_lost)
    then have "arg_remove args" and "e \<in> set ?rm" by (auto split: if_splits)
    with ie show ?thesis by auto
  qed
next
  let ?m = "main env args settings existing_images"
  assume b: "arg_remove args \<and> arg_upload args \<and> result ?m = Inr ()
        \<and> arg_start args \<le> k \<and> k \<le> arg_finish args
        \<and> settings (id_key k) = Some v
        \<and> img \<in> set (expand_images v (settings (filename_key k)))"
  then have res: "result ?m = Inr ()" by simp
  from main_result_Inr [OF res] b obtain v' es where
    rp: "removal_phase env args settings existing_images = (Inr v', es)"
    and thr: "0 < arg_threads args" by blast
  have k: "k \<in> set (range_incl (arg_start args) (arg_finish args))"
    using b by (simp add: range_incl_def)
  have "ident img \<in> ident ` set (expand_images v (settings (filename_key k)) :: 'a Image list)"
    using b by blast
  then have "ident img \<in> set (split_pipe v)"
    unfolding expand_images_idents by (rule in_set_takeD)
  with rp b k have "ident img \<notin> set (map ident v')"
    by (intro removed_ident_gone [of env args settings existing_images v' es k v]) simp_all
  with k b have "img \<in> set (planned_uploads settings (arg_start args) (arg_finish args) v')"
    by (intro planned_uploads_member [of k _ _ settings v]) simp_all
  then show "if arg_dry_run args
           then ident img \<in> set (would_upload (trace ?m))
           else img \<in> set (submitted (trace ?m))"
    using main_Inr_dispatch [OF rp] b thr by auto
qed


theorem uploads_avoid_untouched_snapshot_witness:
  "''a'' \<in> set (dispatched_ids (trace (main quiet_env
        \<lparr>arg_start = 2, arg_finish = 2, arg_upload = True, arg_remove = True,
         arg_dry_run = False, arg_threads = 4\<rparr>
        [''2.id'' \<mapsto> ''a'', ''2.filename'' \<mapsto> ''x''] [image_a, image_b])))
   \<and> ''a'' \<in> set (map ident [image_a, image_b])
   \<and> ''a'' \<in> set (map ident (images_to_remove [''2.id'' \<mapsto> ''a'', ''2.filename'' \<mapsto> ''x'']
          2 2 [image_a, image_b]))
   \<and> result (main quiet_env
        \<lparr>arg_start = 2, arg_finish = 2, arg_upload = True, arg_remove = True,
         arg_dry_run = False, arg_threads = 4\<rparr>
        [''2.id'' \<mapsto> ''a'', ''2.filename'' \<mapsto> ''x''] [image_a, image_b]) = Inr ()
   \<and> [''2.id'' \<mapsto> ''a'', ''2.filename'' \<mapsto> ''x''] (id_key 2) = Some ''a''
   \<and> (\<lparr>ident = ''a'', filename = Some ''x'', remove_form = None\<rparr> :: nat Image)
        \<in> set (expand_images ''a''
              ([''2.id'' \<mapsto> ''a'', ''2.filename'' \<mapsto> ''x''] (filename_key 2)))
   \<and> \<lparr>ident = ''a'', filename = Some ''x'', remove_form = None\<rparr>
        \<in> set (submitted (trace (main quiet_env
        \<lparr>arg_start = 2, arg_finish = 2, arg_upload = True, arg_remove = True,
         arg_dry_run = False, arg_threads = 4\<rparr>
        [''2.id'' \<mapsto> ''a'', ''2.filename'' \<mapsto> ''x''] [image_a, image_b])))"
proof -
  let ?args = "\<lparr>arg_start = 2, arg_finish = 2, arg_upload = True, arg_remove = True,
         arg_dry_run = False, arg_threads = 4\<rparr>"
  let ?settings = "[''2.id'' \<mapsto> ''a'', ''2.filename'' \<mapsto> ''x'']"
  let ?img = "\<lparr>ident = ''a'', filename = Some ''x'', remove_form = None :: nat option\<rparr>"
  let ?m = "main quiet_env ?args ?settings [image_a, image_b]"
  have d: "''a'' \<in> set (dispatched_ids (trace ?m))" by code_simp
  have s: "''a'' \<in> set (map ident [image_a, image_b])" by (simp add: image_a_def)
  have r: "result ?m = Inr ()" by code_simp
  have k: "?settings (id_key 2) = Some ''a''" by (simp add: example_keys)
  have e: "?img \<in> set (expand_images ''a'' (?settings (filename_key 2)))" by code_simp
  have f: "arg_remove ?args \<and> arg_upload ?args \<and> arg_start ?args \<le> 2 \<and> 2 \<le> arg_finish ?args
           \<and> \<not> arg_dry_run ?args" by simp
  note t = uploads_avoid_untouched_snapshot [where env = quiet_env and args = ?args and settings = ?settings
      and existing_images = "[image_a, image_b]" and i = "''a''" and k = 2 and v = "''a''"
      and img = ?img]
  from t d s have "''a'' \<in> set (map ident
      (images_to_remove ?settings (arg_start ?args) (arg_finish ?args) [image_a, image_b]))"
    by blast
  then have rm: "''a'' \<in> set (map ident (images_to_remove ?settings 2 2 [image_a, image_b]))"
    by simp
  from t r k e f have sub: "?img \<in> set (submitted (trace ?m))" by presburger
  from d s rm r k e sub show ?thesis by (intro conjI)
qed

subsection \<open>Dry runs, and the plan as a function of the inputs\<close>

lemma upload_image_dry:
  assumes "arg_dry_run args" and "0 < arg_threads args" and "uploading st = []"
  shows "upload_image env args existing_images st img
           = (if ident img \<in> set (map ident existing_images) then st
              else st\<lparr>events := events st @ [Log Info Would_upload [ident img]]\<rparr>)"
  using assms by (simp add: upload_image_def Let_def)

lemma upload_image_dry_idle:
  assumes "arg_dry_run args" and "0 < arg_threads args" and "uploading st = []"
  shows "uploading (upload_image env args existing_images st img) = []"
    and "futures (upload_image env args existing_images st img) = futures st"
  using assms(3) by (simp_all add: upload_image_dry [OF assms])

lemma upload_image_dry_env:
  assumes "arg_dry_run args" and "0 < arg_threads args" and "uploading st = []"
  shows "upload_image env args existing_images st img
           = upload_image env' args existing_images st img"
  by (simp only: upload_image_dry [OF assms])

lemma upload_images_dry_idle:
  assumes "arg_dry_run args" and "0 < arg_threads args"
  shows "uploading st = [] \<Longrightarrow>
     uploading (foldl (upload_image env args existing_images) st images) = []
     \<and> futures (foldl (upload_image env args existing_images) st images) = futures st"
proof (induction images arbitrary: st)
  case Nil
  then show ?case by simp
next
  case (Cons img images)
  let ?st' = "upload_image env args existing_images st img"
  have idle: "uploading ?st' = []" and fut: "futures ?st' = futures st"
    by (rule upload_image_dry_idle [OF assms Cons.prems])+
  from Cons.IH [OF idle] fut show ?case by simp
qed

lemma upload_images_dry_env:
  assumes "arg_dry_run args" and "0 < arg_threads args"
  shows "uploading st = [] \<Longrightarrow>
     foldl (upload_image env args existing_images) st images
       = foldl (upload_image env' args existing_images) st images"
proof (induction images arbitrary: st)
  case Nil
  then show ?case by simp
next
  case (Cons img images)
  let ?st' = "upload_image env' args existing_images st img"
  have same: "upload_image env args existing_images st img = ?st'"
    by (rule upload_image_dry_env [OF assms Cons.prems])
  have idle: "uploading ?st' = []"
    by (rule upload_image_dry_idle(1) [OF assms Cons.prems])
  have "foldl (upload_image env args existing_images) st (img # images)
          = foldl (upload_image env args existing_images) ?st' images"
    by (simp only: foldl_Cons same)
  also have "\<dots> = foldl (upload_image env' args existing_images) ?st' images"
    by (rule Cons.IH [OF idle])
  also have "\<dots> = foldl (upload_image env' args existing_images) st (img # images)"
    by (simp only: foldl_Cons)
  finally show ?case .
qed

lemma upload_position_dry_idle:
  assumes "arg_dry_run args" and "0 < arg_threads args" and "uploading st = []"
  shows "uploading (upload_position env args settings existing_images st k) = []"
    and "futures (upload_position env args settings existing_images st k) = futures st"
  using upload_images_dry_idle [OF assms(1,2,3), of env existing_images] assms(3)
  by (simp_all add: upload_position_def split: option.splits)

lemma upload_position_dry_env:
  assumes "arg_dry_run args" and "0 < arg_threads args" and "uploading st = []"
  shows "upload_position env args settings existing_images st k
           = upload_position env' args settings existing_images st k"
proof (cases "settings (id_key k)")
  case None
  then show ?thesis by (simp add: upload_position_def)
next
  case (Some v)
  have "foldl (upload_image env args existing_images) st (expand_images v (settings (filename_key k)))
      = foldl (upload_image env' args existing_images) st (expand_images v (settings (filename_key k)))"
    by (rule upload_images_dry_env [OF assms])
  then show ?thesis using Some by (simp add: upload_position_def)
qed

lemma upload_positions_dry_idle:
  assumes "arg_dry_run args" and "0 < arg_threads args"
  shows "uploading st = [] \<Longrightarrow>
     uploading (foldl (upload_position env args settings existing_images) st ks) = []
     \<and> futures (foldl (upload_position env args settings existing_images) st ks) = futures st"
proof (induction ks arbitrary: st)
  case Nil
  then show ?case by simp
next
  case (Cons k ks)
  let ?st' = "upload_position env args settings existing_images st k"
  have idle: "uploading ?st' = []" and fut: "futures ?st' = futures st"
    by (rule upload_position_dry_idle [OF assms Cons.prems])+
  from Cons.IH [OF idle] fut show ?case by simp
qed

lemma upload_positions_dry_env:
  assumes "arg_dry_run args" and "0 < arg_threads args"
  shows "uploading st = [] \<Longrightarrow>
     foldl (upload_position env args settings existing_images) st ks
       = foldl (upload_position env' args settings existing_images) st ks"
proof (induction ks arbitrary: st)
  case Nil
  then show ?case by simp
next
  case (Cons k ks)
  let ?st' = "upload_position env' args settings existing_images st k"
  have same: "upload_position env args settings existing_images st k = ?st'"
    by (rule upload_position_dry_env [OF assms Cons.prems])
  have idle: "uploading ?st' = []"
    by (rule upload_position_dry_idle(1) [OF assms Cons.prems])
  have "foldl (upload_position env args settings existing_images) st (k # ks)
          = foldl (upload_position env args settings existing_images) ?st' ks"
    by (simp only: foldl_Cons same)
  also have "\<dots> = foldl (upload_position env' args settings existing_images) ?st' ks"
    by (rule Cons.IH [OF idle])
  also have "\<dots> = foldl (upload_position env' args settings existing_images) st (k # ks)"
    by (simp only: foldl_Cons)
  finally show ?case .
qed

lemma upload_phase_dry:
  assumes "arg_dry_run args"
  shows "upload_phase env args settings existing_images es
           = upload_phase env' args settings existing_images es"
    and "futures (snd (upload_phase env args settings existing_images es)) = []"
proof -
  let ?st0 = "\<lparr>uploading = [], futures = [], n_waits = 0, events = es\<rparr> :: 'a upload_state"
  let ?ks = "range_incl (arg_start args) (arg_finish args)"
  have idle0: "uploading ?st0 = []" by simp
  have e: "foldl (upload_position env args settings existing_images) ?st0 ?ks
       = foldl (upload_position env' args settings existing_images) ?st0 ?ks"
    if "0 < arg_threads args"
    by (rule upload_positions_dry_env [OF assms that idle0])
  have f: "futures (foldl (upload_position env args settings existing_images) ?st0 ?ks) = []"
    if "0 < arg_threads args"
    using upload_positions_dry_idle [OF assms that idle0, of env settings existing_images ?ks]
    by simp
  show "upload_phase env args settings existing_images es
           = upload_phase env' args settings existing_images es"
  proof (cases "0 < arg_threads args")
    case True
    from e [OF True] show ?thesis by (simp add: upload_phase_def Let_def)
  next
    case False
    then show ?thesis by (simp add: upload_phase_def Let_def)
  qed
  show "futures (snd (upload_phase env args settings existing_images es)) = []"
  proof (cases "0 < arg_threads args")
    case True
    from f [OF True] show ?thesis by (simp add: upload_phase_def Let_def)
  next
    case False
    then show ?thesis by (simp add: upload_phase_def Let_def)
  qed
qed

lemma removal_phase_dry_env:
  assumes "arg_dry_run args"
  shows "removal_phase env args settings existing_images
           = removal_phase env' args settings existing_images"
  using assms by (simp add: removal_phase_def Let_def)

lemma main_dry_env:
  assumes "arg_dry_run args"
  shows "main env args settings existing_images = main env' args settings existing_images"
proof -
  have r: "removal_phase env args settings existing_images
             = removal_phase env' args settings existing_images"
    by (rule removal_phase_dry_env [OF assms])
  have u: "upload_phase env args settings v es = upload_phase env' args settings v es"
    for v :: "'a Image list" and es
    by (rule upload_phase_dry(1) [OF assms])
  show ?thesis unfolding main_def r u ..
qed

lemma removal_phase_Inr_posted:
  assumes "removal_phase env args settings existing_images = (Inr existing_images', es)"
  shows "posted es = (if arg_remove args \<and> \<not> arg_dry_run args
                      then images_to_remove settings (arg_start args) (arg_finish args) existing_images
                      else [])"
proof -
  let ?rm = "images_to_remove settings (arg_start args) (arg_finish args) existing_images"
  have p: "posted (map Post xs) = xs" for xs :: "'a Image list"
    by (induction xs) simp_all
  show ?thesis
  proof (cases "arg_remove args \<and> \<not> arg_dry_run args")
    case False
    with assms show ?thesis
      by (auto simp: removal_phase_def Let_def split: if_splits sum.splits)
  next
    case True
    with assms have f: "fst (post_each (post env) 0 ?rm) = Inr ()"
      and es: "es = Log Info Removing [sorted_ids ?rm] # snd (post_each (post env) 0 ?rm)"
      by (auto simp: removal_phase_def Let_def remove_images_def case_prod_unfold split: sum.splits)
    from post_each_cases [of "post env" 0 ?rm] f
    have "snd (post_each (post env) 0 ?rm) = map Post ?rm" by auto
    with es True show ?thesis by (simp add: p)
  qed
qed

lemma main_posted:
  "posted (trace (main env args settings existing_images))
     = posted (snd (removal_phase env args settings existing_images))"
proof (cases "removal_phase env args settings existing_images")
  case (Pair r es)
  then show ?thesis
    by (cases r) (simp_all add: main_Inl main_Inr upload_phase_posted)
qed

text \<open>
  Claim C8: the plan is a function of the arguments, the settings and the snapshot
  alone. Two dry runs (which change nothing remotely) on the same inputs have the
  same outcome, with the same reports of what would be removed and uploaded,
  whatever the environments of the two runs do; and two runs that both complete
  post the same removals, keep the same view and dispatch the same uploads.
\<close>

theorem plan_is_function_of_inputs:
  "(arg_dry_run args \<longrightarrow>
      main env args settings existing_images = main env' args settings existing_images)
   \<and> (result (main env args settings existing_images) = Inr ()
        \<and> result (main env' args settings existing_images) = Inr () \<longrightarrow>
      posted (trace (main env args settings existing_images))
        = posted (trace (main env' args settings existing_images))
      \<and> view (main env args settings existing_images)
        = view (main env' args settings existing_images)
      \<and> submitted (trace (main env args settings existing_images))
        = submitted (trace (main env' args settings existing_images))
      \<and> would_upload (trace (main env args settings existing_images))
        = would_upload (trace (main env' args settings existing_images)))"
proof (rule conjI; rule impI)
  assume "arg_dry_run args"
  then show "main env args settings existing_images = main env' args settings existing_images"
    by (rule main_dry_env)
next
  let ?m = "main env args settings existing_images"
  let ?m' = "main env' args settings existing_images"
  assume r: "result ?m = Inr () \<and> result ?m' = Inr ()"
  from main_result_Inr [of env args settings existing_images] r obtain v es where
    rp: "removal_phase env args settings existing_images = (Inr v, es)" by blast
  from main_result_Inr [of env' args settings existing_images] r obtain v' es' where
    rp': "removal_phase env' args settings existing_images = (Inr v', es')" by blast
  have vv: "v = v'"
    using removal_phase_view(1) [OF rp] removal_phase_view(1) [OF rp'] by simp
  have p: "posted (trace ?m) = posted (trace ?m')"
    using removal_phase_Inr_posted [OF rp] removal_phase_Inr_posted [OF rp'] rp rp'
    by (simp add: main_posted)
  have vw: "view ?m = view ?m'"
    using main_Inr [OF rp] main_Inr [OF rp'] vv by simp
  have s: "submitted (trace ?m) = submitted (trace ?m')"
    using main_Inr_dispatch(1) [OF rp] main_Inr_dispatch(1) [OF rp'] vv by simp
  have w: "would_upload (trace ?m) = would_upload (trace ?m')"
    using main_Inr_dispatch(2) [OF rp] main_Inr_dispatch(2) [OF rp'] vv by simp
  from p vw s w show "posted (trace ?m) = posted (trace ?m') \<and> view ?m = view ?m'
    \<and> submitted (trace ?m) = submitted (trace ?m')
    \<and> would_upload (trace ?m) = would_upload (trace ?m')" by simp
qed


theorem plan_is_function_of_inputs_witness:
  "arg_dry_run \<lparr>arg_start = 2, arg_finish = 3, arg_upload = True, arg_remove = True,
       arg_dry_run = True, arg_threads = 4\<rparr>
   \<and> post quiet_env 0 \<noteq> post first_post_fails_env 0
   \<and> main quiet_env
        \<lparr>arg_start = 2, arg_finish = 3, arg_upload = True, arg_remove = True,
         arg_dry_run = True, arg_threads = 4\<rparr>
        [''2.id'' \<mapsto> ''a'', ''2.filename'' \<mapsto> ''x''] [image_a, image_b]
     = main first_post_fails_env
        \<lparr>arg_start = 2, arg_finish = 3, arg_upload = True, arg_remove = True,
         arg_dry_run = True, arg_threads = 4\<rparr>
        [''2.id'' \<mapsto> ''a'', ''2.filename'' \<mapsto> ''x''] [image_a, image_b]
   \<and> trace (main quiet_env
        \<lparr>arg_start = 2, arg_finish = 3, arg_upload = True, arg_remove = True,
         arg_dry_run = True, arg_threads = 4\<rparr>
        [''2.id'' \<mapsto> ''a'', ''2.filename'' \<mapsto> ''x''] [image_a, image_b])
     = [Log Info Would_remove [''a''], Log Info Would_upload [''a''],
        Log Warning ID_not_found [''3''], Wait_all []]"
proof -
  let ?args = "\<lparr>arg_start = 2, arg_finish = 3, arg_upload = True, arg_remove = True,
       arg_dry_run = True, arg_threads = 4\<rparr>"
  let ?settings = "[''2.id'' \<mapsto> ''a'', ''2.filename'' \<mapsto> ''x'']"
  have h: "arg_dry_run ?args" by simp
  have d: "post quiet_env 0 \<noteq> post first_post_fails_env 0"
    by (simp add: quiet_env_def first_post_fails_env_def)
  have t: "trace (main quiet_env ?args ?settings [image_a, image_b])
     = [Log Info Would_remove [''a''], Log Info Would_upload [''a''],
        Log Warning ID_not_found [''3''], Wait_all []]" by code_simp
  from plan_is_function_of_inputs [of ?args quiet_env ?settings "[image_a, image_b]" first_post_fails_env] h
  have "main quiet_env ?args ?settings [image_a, image_b]
          = main first_post_fails_env ?args ?settings [image_a, image_b]" by blast
  with h d t show ?thesis by (intro conjI)
qed

lemma upload_image_extends: "\<exists>es'. events (upload_image env args existing_images st img) = events st @ es'"
  by (simp add: upload_image_def Let_def)

lemma upload_images_extend:
  "\<exists>es'. events (foldl (upload_image env args existing_images) st images) = events st @ es'"
proof (induction images arbitrary: st)
  case Nil
  then show ?case by simp
next
  case (Cons img images)
  obtain es1 where 1: "events (upload_image env args existing_images st img) = events st @ es1"
    using upload_image_extends by blast
  obtain es2 where "events (foldl (upload_image env args existing_images)
      (upload_image env args existing_images st img) images)
      = events (upload_image env args existing_images st img) @ es2"
    using Cons.IH by blast
  with 1 have "events (foldl (upload_image env args existing_images) st (img # images))
      = events st @ (es1 @ es2)" by simp
  then show ?case by blast
qed

lemma upload_position_extends:
  "\<exists>es'. events (upload_position env args settings existing_images st k) = events st @ es'"
  using upload_images_extend [of env args existing_images st]
  by (simp add: upload_position_def split: option.splits)

lemma upload_positions_extend:
  "\<exists>es'. events (foldl (upload_position env args settings existing_images) st ks) = events st @ es'"
proof (induction ks arbitrary: st)
  case Nil
  then show ?case by simp
next
  case (Cons k ks)
  obtain es1 where 1: "events (upload_position env args settings existing_images st k) = events st @ es1"
    using upload_position_extends by blast
  obtain es2 where "events (foldl (upload_position env args settings existing_images)
      (upload_position env args settings existing_images st k) ks)
      = events (upload_position env args settings existing_images st k) @ es2"
    using Cons.IH by blast
  with 1 have "events (foldl (upload_position env args settings existing_images) st (k # ks))
      = events st @ (es1 @ es2)" by simp
  then show ?case by blast
qed

lemma upload_phase_extends:
  "\<exists>es'. events (snd (upload_phase env args settings existing_images es)) = es @ es'"
proof -
  let ?st0 = "\<lparr>uploading = [], futures = [], n_waits = 0, events = es\<rparr> :: 'a upload_state"
  obtain es1 where "events (foldl (upload_position env args settings existing_images) ?st0
      (range_incl (arg_start args) (arg_finish args))) = events ?st0 @ es1"
    using upload_positions_extend by blast
  then show ?thesis by (simp add: upload_phase_def Let_def)
qed

lemma main_trace_extends:
  "\<exists>es'. trace (main env args settings existing_images)
           = snd (removal_phase env args settings existing_images) @ es'"
proof (cases "removal_phase env args settings existing_images")
  case (Pair r es)
  show ?thesis
  proof (cases r)
    case (Inl e)
    with Pair show ?thesis by (simp add: main_Inl)
  next
    case (Inr v)
    with Pair upload_phase_extends [of env args settings v es] show ?thesis
      by (simp add: main_Inr)
  qed
qed

lemma main_tasks_dry:
  assumes "arg_dry_run args"
  shows "tasks (main env args settings existing_images) = []"
proof (cases "removal_phase env args settings existing_images")
  case (Pair r es)
  show ?thesis
  proof (cases r)
    case (Inl e)
    with Pair show ?thesis by (simp add: main_Inl)
  next
    case (Inr v)
    with Pair show ?thesis by (simp add: main_Inr upload_phase_dry(2) [OF assms])
  qed
qed

text \<open>
  Claim C3: in dry-run mode no removal form is posted and no upload task is
  submitted (no future exists at the end); the planned removals are reported by one
  \<^verbatim>\<open>'Would remove "%s"'\<close> record, and a run that completes reports by
  \<^verbatim>\<open>'Would upload "%s"'\<close> exactly the images it would have submitted, in order.
\<close>

theorem dry_run_mutates_nothing:
  assumes "arg_dry_run args"
  shows "posted (trace (main env args settings existing_images)) = []
       \<and> submitted (trace (main env args settings existing_images)) = []
       \<and> tasks (main env args settings existing_images) = []
       \<and> (arg_remove args \<longrightarrow>
            Log Info Would_remove
              [sorted_ids (images_to_remove settings (arg_start args) (arg_finish args) existing_images)]
            \<in> set (trace (main env args settings existing_images)))
       \<and> (arg_upload args \<and> result (main env args settings existing_images) = Inr () \<longrightarrow>
            would_upload (trace (main env args settings existing_images))
              = map ident (planned_uploads settings (arg_start args) (arg_finish args)
                  (view (main env args settings existing_images))))"
proof -
  let ?m = "main env args settings existing_images"
  let ?rm = "images_to_remove settings (arg_start args) (arg_finish args) existing_images"
  have es: "snd (removal_phase env args settings existing_images)
              = (if arg_remove args then [Log Info Would_remove [sorted_ids ?rm]] else [])"
    using assms by (simp add: removal_phase_def Let_def split: sum.splits)
  have p: "posted (trace ?m) = []"
    unfolding main_posted es by simp
  obtain r es0 where rp: "removal_phase env args settings existing_images = (r, es0)"
    by (cases "removal_phase env args settings existing_images")
  have s: "submitted (trace ?m) = []"
  proof (cases r)
    case (Inl e)
    with rp show ?thesis by (simp add: main_Inl_dispatch)
  next
    case (Inr v)
    with rp assms show ?thesis by (simp add: main_Inr_dispatch)
  qed
  have t: "tasks ?m = []" by (rule main_tasks_dry [OF assms])
  have w: "Log Info Would_remove [sorted_ids ?rm] \<in> set (trace ?m)" if "arg_remove args"
  proof -
    obtain es' where "trace ?m = snd (removal_phase env args settings existing_images) @ es'"
      using main_trace_extends by blast
    with es that show ?thesis by simp
  qed
  have u: "would_upload (trace ?m)
             = map ident (planned_uploads settings (arg_start args) (arg_finish args) (view ?m))"
    if "arg_upload args \<and> result ?m = Inr ()"
  proof -
    from that main_result_Inr [of env args settings existing_images] obtain v es1 where
      rp1: "removal_phase env args settings existing_images = (Inr v, es1)"
      and thr: "0 < arg_threads args" by blast
    from main_Inr [OF rp1] have "view ?m = v" by simp
    with main_Inr_dispatch(2) [OF rp1] that thr assms show ?thesis by simp
  qed
  from p s t w u show ?thesis by blast
qed

theorem dry_run_mutates_nothing_witness:
  "arg_dry_run \<lparr>arg_start = 2, arg_finish = 3, arg_upload = True, arg_remove = True,
       arg_dry_run = True, arg_threads = 4\<rparr>
   \<and> posted (trace (main quiet_env
        \<lparr>arg_start = 2, arg_finish = 3, arg_upload = True, arg_remove = True,
         arg_dry_run = True, arg_threads = 4\<rparr>
        [''2.id'' \<mapsto> ''a|c'', ''2.filename'' \<mapsto> ''x|y''] [image_a, image_b])) = []
   \<and> submitted (trace (main quiet_env
        \<lparr>arg_start = 2, arg_finish = 3, arg_upload = True, arg_remove = True,
         arg_dry_run = True, arg_threads = 4\<rparr>
        [''2.id'' \<mapsto> ''a|c'', ''2.filename'' \<mapsto> ''x|y''] [image_a, image_b])) = []
   \<and> trace (main quiet_env
        \<lparr>arg_start = 2, arg_finish = 3, arg_upload = True, arg_remove = True,
         arg_dry_run = True, arg_threads = 4\<rparr>
        [''2.id'' \<mapsto> ''a|c'', ''2.filename'' \<mapsto> ''x|y''] [image_a, image_b])
     = [Log Info Would_remove [''a''], Log Info Would_upload [''a''],
        Log Info Would_upload [''c''], Log Warning ID_not_found [''3''], Wait_all []]"
proof -
  let ?args = "\<lparr>arg_start = 2, arg_finish = 3, arg_upload = True, arg_remove = True,
       arg_dry_run = True, arg_threads = 4\<rparr>"
  let ?settings = "[''2.id'' \<mapsto> ''a|c'', ''2.filename'' \<mapsto> ''x|y'']"
  have h: "arg_dry_run ?args" by simp
  have t: "trace (main quiet_env ?args ?settings [image_a, image_b])
     = [Log Info Would_remove [''a''], Log Info Would_upload [''a''],
        Log Info Would_upload [''c''], Log Warning ID_not_found [''3''], Wait_all []]"
    by code_simp
  from dry_run_mutates_nothing [OF h, of quiet_env ?settings "[image_a, image_b]"]
  have p: "posted (trace (main quiet_env ?args ?settings [image_a, image_b])) = []"
    and s: "submitted (trace (main quiet_env ?args ?settings [image_a, image_b])) = []"
    by blast+
  from h p s t show ?thesis by (intro conjI)
qed

subsection \<open>The bounded upload loop and its tasks\<close>

lemma in_flight_snoc: "in_flight (es @ [e]) = in_flight_step (in_flight es) e"
  by (simp add: in_flight_def)

lemma take_snoc: "take n (es @ [e]) = (if n \<le> length es then take n es else es @ [e])"
  by simp

lemma in_flight_inv_snoc:
  assumes "\<forall>n. length (in_flight (take n es)) \<le> T"
    and "length (in_flight_step (in_flight es) e) \<le> T"
  shows "\<forall>n. length (in_flight (take n (es @ [e]))) \<le> T"
proof
  fix n
  show "length (in_flight (take n (es @ [e]))) \<le> T"
  proof (cases "n \<le> length es")
    case True
    then have "take n (es @ [e]) = take n es" by simp
    with assms(1) show ?thesis by simp
  next
    case False
    then have "take n (es @ [e]) = es @ [e]" by simp
    with assms(2) show ?thesis by (simp add: in_flight_snoc)
  qed
qed

lemma wait_first_completed_shrinks:
  assumes "fs \<noteq> []"
  shows "length (wait_first_completed choice fs) < length fs"
proof -
  let ?f = "fs ! (fst choice mod length fs)"
  have "?f \<in> set fs" using assms by simp
  moreover have "\<not> (?f \<noteq> ?f \<and> ?f \<notin> set (snd choice))" by simp
  ultimately have "length (filter (\<lambda>f. f \<noteq> ?f \<and> f \<notin> set (snd choice)) fs) < length fs"
    by (rule length_filter_less)
  then show ?thesis using assms by (simp add: wait_first_completed_def)
qed

lemma in_flight_inv_bound:
  "in_flight_inv T st \<Longrightarrow> length (uploading st) \<le> T"
proof -
  assume a: "in_flight_inv T st"
  then have "length (in_flight (take (length (events st)) (events st))) \<le> T"
    unfolding in_flight_inv_def by blast
  with a show ?thesis by (simp add: in_flight_inv_def)
qed

lemma in_flight_inv_log:
  assumes "in_flight_inv T st"
  shows "in_flight_inv T (st\<lparr>events := events st @ [Log l m a]\<rparr>)"
proof -
  have "length (in_flight_step (in_flight (events st)) (Log l m a)) \<le> T"
    using in_flight_inv_bound [OF assms] assms by (simp add: in_flight_inv_def)
  with assms in_flight_inv_snoc [of "events st" T "Log l m a"] show ?thesis
    by (simp add: in_flight_inv_def in_flight_snoc)
qed

lemma in_flight_inv_wait:
  assumes "in_flight_inv T st" and "uploading st \<noteq> []"
  shows "in_flight_inv T
           (st\<lparr>uploading := wait_first_completed c (uploading st),
               n_waits := Suc (n_waits st),
               events := events st
                 @ [Wait_first_completed (uploading st) (wait_first_completed c (uploading st))]\<rparr>)"
    and "length (wait_first_completed c (uploading st)) < T"
proof -
  have less: "length (wait_first_completed c (uploading st)) < length (uploading st)"
    by (rule wait_first_completed_shrinks [OF assms(2)])
  with in_flight_inv_bound [OF assms(1)]
  show lt: "length (wait_first_completed c (uploading st)) < T" by simp
  then have "length (in_flight_step (in_flight (events st))
      (Wait_first_completed (uploading st) (wait_first_completed c (uploading st)))) \<le> T"
    by simp
  with assms(1) in_flight_inv_snoc [of "events st" T
      "Wait_first_completed (uploading st) (wait_first_completed c (uploading st))"]
  show "in_flight_inv T
           (st\<lparr>uploading := wait_first_completed c (uploading st),
               n_waits := Suc (n_waits st),
               events := events st
                 @ [Wait_first_completed (uploading st) (wait_first_completed c (uploading st))]\<rparr>)"
    by (simp add: in_flight_inv_def in_flight_snoc)
qed

lemma in_flight_inv_submit:
  assumes "in_flight_inv T st" and "length (uploading st) < T"
  shows "in_flight_inv T
           (st\<lparr>uploading := uploading st @ [n], futures := fs,
               events := events st @ [Submit n img]\<rparr>)"
proof -
  have "length (in_flight_step (in_flight (events st)) (Submit n img)) \<le> T"
    using assms by (simp add: in_flight_inv_def)
  with assms(1) in_flight_inv_snoc [of "events st" T "Submit n img"] show ?thesis
    by (simp add: in_flight_inv_def in_flight_snoc)
qed

lemma upload_image_inv:
  assumes thr: "0 < arg_threads args" and inv: "in_flight_inv (nat (arg_threads args)) st"
  shows "in_flight_inv (nat (arg_threads args)) (upload_image env args existing_images st img)"
proof (cases "ident img \<in> set (map ident existing_images)")
  case True
  with inv show ?thesis by (simp add: upload_image_def)
next
  case False
  let ?T = "nat (arg_threads args)"
  let ?nd = "wait_first_completed (completed env (n_waits st)) (uploading st)"
  let ?st1 = "if arg_threads args \<le> int (length (uploading st))
              then st\<lparr>uploading := ?nd, n_waits := Suc (n_waits st),
                      events := events st @ [Wait_first_completed (uploading st) ?nd]\<rparr>
              else st"
  have st1: "in_flight_inv ?T ?st1 \<and> length (uploading ?st1) < ?T"
  proof (cases "arg_threads args \<le> int (length (uploading st))")
    case True
    with thr have ne: "uploading st \<noteq> []" by auto
    from in_flight_inv_wait [OF inv ne, of "completed env (n_waits st)"] True
    show ?thesis by simp
  next
    case False
    with inv thr show ?thesis by simp
  qed
  have step: "upload_image env args existing_images st img
        = (if arg_dry_run args
           then ?st1\<lparr>events := events ?st1 @ [Log Info Would_upload [ident img]]\<rparr>
           else ?st1\<lparr>uploading := uploading ?st1 @ [length (futures ?st1)],
                  futures := futures ?st1
                    @ [(img, reliably_upload img (execute env (length (futures ?st1))))],
                  events := events ?st1 @ [Submit (length (futures ?st1)) img]\<rparr>)"
    using False by (simp add: upload_image_def Let_def)
  show ?thesis
  proof (cases "arg_dry_run args")
    case True
    with step st1 in_flight_inv_log [of ?T ?st1 Info Would_upload "[ident img]"]
    show ?thesis by simp
  next
    case False
    with step st1 in_flight_inv_submit [where T = ?T and st = ?st1
        and n = "length (futures ?st1)" and img = img
        and fs = "futures ?st1 @ [(img, reliably_upload img (execute env (length (futures ?st1))))]"]
    show ?thesis by simp
  qed
qed

lemma upload_position_inv:
  assumes thr: "0 < arg_threads args" and inv: "in_flight_inv (nat (arg_threads args)) st"
  shows "in_flight_inv (nat (arg_threads args))
           (upload_position env args settings existing_images st k)"
proof (cases "settings (id_key k)")
  case None
  with in_flight_inv_log [OF inv] show ?thesis by (simp add: upload_position_def)
next
  case (Some v)
  have "in_flight_inv (nat (arg_threads args))
          (foldl (upload_image env args existing_images) st
             (expand_images v (settings (filename_key k))))"
    by (rule foldl_invariant [where P = "in_flight_inv (nat (arg_threads args))", OF inv])
       (rule upload_image_inv [OF thr])
  with Some show ?thesis by (simp add: upload_position_def)
qed

lemma removal_events_in_flight_take:
  assumes "\<forall>e \<in> set es. removal_event e"
  shows "in_flight (take n es) = []"
proof -
  have "\<forall>e \<in> set (take n es). removal_event e" using assms by (auto dest: in_set_takeD)
  then show ?thesis unfolding in_flight_def by (rule removal_events_in_flight)
qed

lemma upload_phase_inv:
  assumes "\<forall>e \<in> set es. removal_event e"
  shows "length (in_flight (take n (events (snd (upload_phase env args settings existing_images es)))))
           \<le> nat (arg_threads args)"
proof (cases "arg_upload args \<and> 0 < arg_threads args")
  case False
  then have "events (snd (upload_phase env args settings existing_images es)) = es"
    by (auto simp: upload_phase_def Let_def)
  then show ?thesis by (simp add: removal_events_in_flight_take [OF assms])
next
  case True
  let ?T = "nat (arg_threads args)"
  let ?init = "\<lparr>uploading = [], futures = [], n_waits = 0, events = es\<rparr> :: 'a upload_state"
  let ?st = "foldl (upload_position env args settings existing_images) ?init
               (range_incl (arg_start args) (arg_finish args))"
  have "in_flight (events ?init) = []"
    using removal_events_in_flight_take [OF assms, of "length es"] by simp
  then have inv0: "in_flight_inv ?T ?init"
    by (simp add: in_flight_inv_def removal_events_in_flight_take [OF assms])
  have inv: "in_flight_inv ?T ?st"
    by (rule foldl_invariant [where P = "in_flight_inv ?T", OF inv0])
       (rule upload_position_inv, use True in simp)
  have "length (in_flight_step (in_flight (events ?st)) (Wait_all (uploading ?st))) \<le> ?T"
    using in_flight_inv_bound [OF inv] inv by (simp add: in_flight_inv_def)
  with inv in_flight_inv_snoc [of "events ?st" ?T "Wait_all (uploading ?st)"]
  have "\<forall>n. length (in_flight (take n (events ?st @ [Wait_all (uploading ?st)]))) \<le> ?T"
    by (simp add: in_flight_inv_def)
  moreover have "events (snd (upload_phase env args settings existing_images es))
                   = events ?st @ [Wait_all (uploading ?st)]"
    using True by (simp add: upload_phase_def Let_def)
  ultimately show ?thesis by simp
qed

text \<open>
  Claim C2: whatever the tasks are and in whatever order they complete, the set
  \<^verbatim>\<open>uploading\<close> never holds more futures than \<^verbatim>\<open>--threads\<close>: after every prefix of
  the events of a run, the set replayed from them (a submission adds its future, a
  wait for the first completion leaves \<^verbatim>\<open>not_done\<close>) has at most that many elements.
\<close>

theorem in_flight_never_exceeds_threads:
  "length (in_flight (take n (trace (main env args settings existing_images))))
     \<le> nat (arg_threads args)"
proof (cases "removal_phase env args settings existing_images")
  case (Pair r es)
  have ev: "\<forall>e \<in> set es. removal_event e"
    by (rule removal_phase_snd_events(3) [OF Pair])
  show ?thesis
  proof (cases r)
    case (Inl e)
    with Pair show ?thesis
      by (simp add: main_Inl removal_events_in_flight_take [OF ev])
  next
    case (Inr v)
    with Pair upload_phase_inv [OF ev, of n env args settings v] show ?thesis
      by (simp add: main_Inr)
  qed
qed


theorem in_flight_never_exceeds_threads_witness:
  "trace (main quiet_env
      \<lparr>arg_start = 2, arg_finish = 2, arg_upload = True, arg_remove = False,
       arg_dry_run = False, arg_threads = 2\<rparr>
      [''2.id'' \<mapsto> ''a|b|c'', ''2.filename'' \<mapsto> ''x|y|z''] ([] :: nat Image list))
     = [Submit 0 \<lparr>ident = ''a'', filename = Some ''x'', remove_form = None\<rparr>,
        Submit 1 \<lparr>ident = ''b'', filename = Some ''y'', remove_form = None\<rparr>,
        Wait_first_completed [0, 1] [1],
        Submit 2 \<lparr>ident = ''c'', filename = Some ''z'', remove_form = None\<rparr>,
        Wait_all [1, 2]]
   \<and> length (in_flight (take 4 (trace (main quiet_env
      \<lparr>arg_start = 2, arg_finish = 2, arg_upload = True, arg_remove = False,
       arg_dry_run = False, arg_threads = 2\<rparr>
      [''2.id'' \<mapsto> ''a|b|c'', ''2.filename'' \<mapsto> ''x|y|z''] ([] :: nat Image list)))))
     \<le> nat (arg_threads \<lparr>arg_start = 2, arg_finish = 2, arg_upload = True, arg_remove = False,
       arg_dry_run = False, arg_threads = 2\<rparr>)"
proof -
  let ?args = "\<lparr>arg_start = 2, arg_finish = 2, arg_upload = True, arg_remove = False,
       arg_dry_run = False, arg_threads = 2\<rparr>"
  let ?settings = "[''2.id'' \<mapsto> ''a|b|c'', ''2.filename'' \<mapsto> ''x|y|z'']"
  have t: "trace (main quiet_env ?args ?settings ([] :: nat Image list))
     = [Submit 0 \<lparr>ident = ''a'', filename = Some ''x'', remove_form = None\<rparr>,
        Submit 1 \<lparr>ident = ''b'', filename = Some ''y'', remove_form = None\<rparr>,
        Wait_first_completed [0, 1] [1],
        Submit 2 \<lparr>ident = ''c'', filename = Some ''z'', remove_form = None\<rparr>,
        Wait_all [1, 2]]" by code_simp
  from t in_flight_never_exceeds_threads [of 4 quiet_env ?args ?settings "[] :: nat Image list"]
  show ?thesis by (intro conjI)
qed

lemma foldl_related:
  assumes "R s s'" and "\<And>s s' x. R s s' \<Longrightarrow> R (f s x) (f' s' x)"
  shows "R (foldl f s xs) (foldl f' s' xs)"
  using assms(1) by (induction xs arbitrary: s s') (simp_all add: assms(2))

lemma upload_image_same_main_thread:
  assumes "same_main_thread st st'"
  shows "same_main_thread (upload_image env args existing_images st img)
           (upload_image (env\<lparr>execute := e'\<rparr>) args existing_images st' img)"
  using assms by (simp add: upload_image_def Let_def same_main_thread_def)

lemma upload_position_same_main_thread:
  assumes "same_main_thread st st'"
  shows "same_main_thread (upload_position env args settings existing_images st k)
           (upload_position (env\<lparr>execute := e'\<rparr>) args settings existing_images st' k)"
proof (cases "settings (id_key k)")
  case None
  with assms show ?thesis by (simp add: upload_position_def same_main_thread_def)
next
  case (Some v)
  have "same_main_thread
          (foldl (upload_image env args existing_images) st
             (expand_images v (settings (filename_key k))))
          (foldl (upload_image (env\<lparr>execute := e'\<rparr>) args existing_images) st'
             (expand_images v (settings (filename_key k))))"
    by (rule foldl_related [where R = same_main_thread, OF assms])
       (rule upload_image_same_main_thread)
  with Some show ?thesis by (simp add: upload_position_def)
qed

lemma upload_phase_same_main_thread:
  "fst (upload_phase (env\<lparr>execute := e'\<rparr>) args settings existing_images es)
     = fst (upload_phase env args settings existing_images es)
   \<and> events (snd (upload_phase (env\<lparr>execute := e'\<rparr>) args settings existing_images es))
     = events (snd (upload_phase env args settings existing_images es))"
proof -
  let ?init = "\<lparr>uploading = [], futures = [], n_waits = 0, events = es\<rparr> :: 'a upload_state"
  have "same_main_thread ?init ?init" by (simp add: same_main_thread_def)
  then have "same_main_thread
      (foldl (upload_position env args settings existing_images) ?init
         (range_incl (arg_start args) (arg_finish args)))
      (foldl (upload_position (env\<lparr>execute := e'\<rparr>) args settings existing_images) ?init
         (range_incl (arg_start args) (arg_finish args)))"
    by (rule foldl_related [where R = same_main_thread])
       (rule upload_position_same_main_thread)
  then show ?thesis
    by (simp add: upload_phase_def Let_def same_main_thread_def)
qed

lemma remove_images_execute:
  "remove_images (env\<lparr>execute := e'\<rparr>) images = remove_images env images"
  by (simp add: remove_images_def)

lemma removal_phase_execute:
  "removal_phase (env\<lparr>execute := e'\<rparr>) args settings existing_images
     = removal_phase env args settings existing_images"
  by (simp only: removal_phase_def remove_images_execute)

lemma main_execute:
  "result (main (env\<lparr>execute := e'\<rparr>) args settings existing_images)
     = result (main env args settings existing_images)
   \<and> view (main (env\<lparr>execute := e'\<rparr>) args settings existing_images)
     = view (main env args settings existing_images)
   \<and> trace (main (env\<lparr>execute := e'\<rparr>) args settings existing_images)
     = trace (main env args settings existing_images)"
proof (cases "removal_phase env args settings existing_images")
  case (Pair r es)
  then have rp': "removal_phase (env\<lparr>execute := e'\<rparr>) args settings existing_images = (r, es)"
    by (simp add: removal_phase_execute)
  show ?thesis
  proof (cases r)
    case (Inl e)
    with Pair rp' show ?thesis by (simp add: main_Inl)
  next
    case (Inr v)
    with Pair rp' upload_phase_same_main_thread [where env = env and e' = e' and args = args
        and settings = settings and existing_images = v and es = es]
    show ?thesis by (simp add: main_Inr)
  qed
qed

lemma upload_image_futures:
  assumes "futures st = futures_of_trace env (events st)"
  shows "futures (upload_image env args existing_images st img)
           = futures_of_trace env (events (upload_image env args existing_images st img))"
proof -
  have len: "length (futures st) = length (submitted (events st))"
    using assms by (simp add: futures_of_trace_def)
  show ?thesis
    using assms len
    by (simp add: upload_image_def Let_def futures_of_trace_def enumerate_append_eq)
qed

lemma upload_position_futures:
  assumes "futures st = futures_of_trace env (events st)"
  shows "futures (upload_position env args settings existing_images st k)
           = futures_of_trace env (events (upload_position env args settings existing_images st k))"
proof (cases "settings (id_key k)")
  case None
  with assms show ?thesis by (simp add: upload_position_def futures_of_trace_def)
next
  case (Some v)
  have "futures (foldl (upload_image env args existing_images) st
             (expand_images v (settings (filename_key k))))
      = futures_of_trace env (events (foldl (upload_image env args existing_images) st
             (expand_images v (settings (filename_key k)))))"
    by (rule foldl_invariant [where P = "\<lambda>s. futures s = futures_of_trace env (events s)", OF assms])
       (rule upload_image_futures)
  with Some show ?thesis by (simp add: upload_position_def)
qed

lemma upload_phase_futures:
  assumes "submitted es = []"
  shows "futures (snd (upload_phase env args settings existing_images es))
           = futures_of_trace env (events (snd (upload_phase env args settings existing_images es)))"
proof -
  let ?init = "\<lparr>uploading = [], futures = [], n_waits = 0, events = es\<rparr> :: 'a upload_state"
  have init: "futures ?init = futures_of_trace env (events ?init)"
    using assms by (simp add: futures_of_trace_def)
  have "futures (foldl (upload_position env args settings existing_images) ?init
             (range_incl (arg_start args) (arg_finish args)))
      = futures_of_trace env (events (foldl (upload_position env args settings existing_images) ?init
             (range_incl (arg_start args) (arg_finish args))))"
    by (rule foldl_invariant [where P = "\<lambda>s. futures s = futures_of_trace env (events s)", OF init])
       (rule upload_position_futures)
  then show ?thesis using assms
    by (simp add: upload_phase_def Let_def futures_of_trace_def)
qed

lemma main_tasks:
  "tasks (main env args settings existing_images)
     = futures_of_trace env (trace (main env args settings existing_images))"
proof (cases "removal_phase env args settings existing_images")
  case (Pair r es)
  have s: "submitted es = []" by (rule removal_phase_snd_events(1) [OF Pair])
  show ?thesis
  proof (cases r)
    case (Inl e)
    with Pair s show ?thesis by (simp add: main_Inl futures_of_trace_def)
  next
    case (Inr v)
    with Pair upload_phase_futures [OF s, of env args settings v] show ?thesis
      by (simp add: main_Inr)
  qed
qed

text \<open>
  Claim C6, as the specification states it, fails for a failure that is not a
  \<^verbatim>\<open>RuntimeError\<close>: \<^verbatim>\<open>reliably_upload\<close> has a handler for that type only. When
  \<^verbatim>\<open>reliably_execute\<close> lets another exception through, it leaves \<^verbatim>\<open>reliably_upload\<close>
  too, and no \<^verbatim>\<open>'Uploading "%s" failed because of "%s"'\<close> record is logged: the
  task's future keeps the exception.
\<close>

theorem other_exception_not_caught_counterexample:
  "reliably_upload image_a (Raised_other ''OSError'')
     = (Inl ''OSError'', [Log Debug Attempting_to_upload [''a'']])
   \<and> execute failing_uploads_env 1 = Raised_other ''OSError''
   \<and> tasks (main failing_uploads_env
      \<lparr>arg_start = 2, arg_finish = 2, arg_upload = True, arg_remove = False,
       arg_dry_run = False, arg_threads = 4\<rparr>
      [''2.id'' \<mapsto> ''a|b|c'', ''2.filename'' \<mapsto> ''x|y|z''] ([] :: nat Image list)) ! 1
     = (\<lparr>ident = ''b'', filename = Some ''y'', remove_form = None\<rparr>, Inl ''OSError'',
        [Log Debug Attempting_to_upload [''b'']])"
  by code_simp

text \<open>
  Claim C6, amended: for every upload task, when \<^verbatim>\<open>reliably_execute\<close> gives up with
  \<^verbatim>\<open>RuntimeError\<close>, \<^verbatim>\<open>reliably_upload\<close> catches it at the item boundary, logs an error
  with the identifier of the image and the reason, and returns normally; an
  exception of any other type is neither caught nor logged by \<^verbatim>\<open>reliably_upload\<close>
  and stays in the future of the task. In both cases neither the other tasks nor
  the run are aborted: whatever the tasks do, the result, the view and the events
  of \<^verbatim>\<open>main\<close> are the same, and every submitted image has its future, whose content
  depends on the outcome of its own task only.
\<close>

theorem upload_failure_is_contained:
  "reliably_upload img (Raised_RuntimeError reason)
     = (Inr (), [Log Debug Attempting_to_upload [ident img],
                 Log Error Uploading_failed [ident img, reason]])
   \<and> reliably_upload img (Raised_other other)
     = (Inl other, [Log Debug Attempting_to_upload [ident img]])
   \<and> result (main (env\<lparr>execute := e'\<rparr>) args settings existing_images)
     = result (main env args settings existing_images)
   \<and> view (main (env\<lparr>execute := e'\<rparr>) args settings existing_images)
     = view (main env args settings existing_images)
   \<and> trace (main (env\<lparr>execute := e'\<rparr>) args settings existing_images)
     = trace (main env args settings existing_images)
   \<and> tasks (main env args settings existing_images)
     = map (\<lambda>(n, image). (image, reliably_upload image (execute env n)))
         (enumerate 0 (submitted (trace (main env args settings existing_images))))"
  using main_execute [where env = env and e' = e' and args = args and settings = settings
      and existing_images = existing_images]
    main_tasks [where env = env and args = args and settings = settings
      and existing_images = existing_images]
  by (simp add: reliably_upload_def futures_of_trace_def)

theorem upload_failure_is_contained_witness:
  "result (main failing_uploads_env
      \<lparr>arg_start = 2, arg_finish = 2, arg_upload = True, arg_remove = False,
       arg_dry_run = False, arg_threads = 4\<rparr>
      [''2.id'' \<mapsto> ''a|b|c'', ''2.filename'' \<mapsto> ''x|y|z''] ([] :: nat Image list)) = Inr ()
   \<and> trace (main (failing_uploads_env\<lparr>execute := execute quiet_env\<rparr>)
      \<lparr>arg_start = 2, arg_finish = 2, arg_upload = True, arg_remove = False,
       arg_dry_run = False, arg_threads = 4\<rparr>
      [''2.id'' \<mapsto> ''a|b|c'', ''2.filename'' \<mapsto> ''x|y|z''] ([] :: nat Image list))
     = trace (main failing_uploads_env
      \<lparr>arg_start = 2, arg_finish = 2, arg_upload = True, arg_remove = False,
       arg_dry_run = False, arg_threads = 4\<rparr>
      [''2.id'' \<mapsto> ''a|b|c'', ''2.filename'' \<mapsto> ''x|y|z''] ([] :: nat Image list))
   \<and> tasks (main failing_uploads_env
      \<lparr>arg_start = 2, arg_finish = 2, arg_upload = True, arg_remove = False,
       arg_dry_run = False, arg_threads = 4\<rparr>
      [''2.id'' \<mapsto> ''a|b|c'', ''2.filename'' \<mapsto> ''x|y|z''] ([] :: nat Image list))
     = [(\<lparr>ident = ''a'', filename = Some ''x'', remove_form = None\<rparr>, Inr (),
         [Log Debug Attempting_to_upload [''a''],
          Log Error Uploading_failed [''a'', ''gave up'']]),
        (\<lparr>ident = ''b'', filename = Some ''y'', remove_form = None\<rparr>, Inl ''OSError'',
         [Log Debug Attempting_to_upload [''b'']]),
        (\<lparr>ident = ''c'', filename = Some ''z'', remove_form = None\<rparr>, Inr (),
         [Log Debug Attempting_to_upload [''c''],
          Log Info Uploaded_successfully [''z'', ''c'']])]"
proof -
  let ?args = "\<lparr>arg_start = 2, arg_finish = 2, arg_upload = True, arg_remove = False,
       arg_dry_run = False, arg_threads = 4\<rparr>"
  let ?settings = "[''2.id'' \<mapsto> ''a|b|c'', ''2.filename'' \<mapsto> ''x|y|z'']"
  let ?m = "main failing_uploads_env ?args ?settings ([] :: nat Image list)"
  have r: "result ?m = Inr ()" by code_simp
  have s: "map (\<lambda>(n, image). (image, reliably_upload image (execute failing_uploads_env n)))
             (enumerate 0 (submitted (trace ?m)))
     = [(\<lparr>ident = ''a'', filename = Some ''x'', remove_form = None\<rparr>, Inr (),
         [Log Debug Attempting_to_upload [''a''],
          Log Error Uploading_failed [''a'', ''gave up'']]),
        (\<lparr>ident = ''b'', filename = Some ''y'', remove_form = None\<rparr>, Inl ''OSError'',
         [Log Debug Attempting_to_upload [''b'']]),
        (\<lparr>ident = ''c'', filename = Some ''z'', remove_form = None\<rparr>, Inr (),
         [Log Debug Attempting_to_upload [''c''],
          Log Info Uploaded_successfully [''z'', ''c'']])]" by code_simp
  note t = upload_failure_is_contained [where env = failing_uploads_env and args = ?args
      and settings = ?settings and existing_images = "[] :: nat Image list"
      and img = image_a and reason = "''gave up''" and other = "''OSError''"
      and e' = "execute quiet_env"]
  from t have tr: "trace (main (failing_uploads_env\<lparr>execute := execute quiet_env\<rparr>)
        ?args ?settings ([] :: nat Image list)) = trace ?m" by blast
  from t have "tasks ?m
     = map (\<lambda>(n, image). (image, reliably_upload image (execute failing_uploads_env n)))
         (enumerate 0 (submitted (trace ?m)))" by blast
  from this s have "tasks ?m
     = [(\<lparr>ident = ''a'', filename = Some ''x'', remove_form = None\<rparr>, Inr (),
         [Log Debug Attempting_to_upload [''a''],
          Log Error Uploading_failed [''a'', ''gave up'']]),
        (\<lparr>ident = ''b'', filename = Some ''y'', remove_form = None\<rparr>, Inl ''OSError'',
         [Log Debug Attempting_to_upload [''b'']]),
        (\<lparr>ident = ''c'', filename = Some ''z'', remove_form = None\<rparr>, Inr (),
         [Log Debug Attempting_to_upload [''c''],
          Log Info Uploaded_successfully [''z'', ''c'']])]" by (rule trans)
  with r tr show ?thesis by (intro conjI)
qed

end
